theory Spec2Isabelle
  imports Complex_Main "HOL-Library.Sublist"
begin

section \<open>Python values used by epoch_calculator.py\<close>

text \<open>
  Exceptions are values. \<open>ValueError\<close> is what \<open>int(text)\<close> raises on text that is
  not an integer literal, \<open>OverflowError\<close> and \<open>ZeroDivisionError\<close> are what the true
  division \<open>a / b\<close> of two Python integers raises, \<open>OSError\<close> is what \<open>os.listdir\<close>
  and \<open>open\<close> raise.
\<close>

datatype py_error = ValueError | OverflowError | ZeroDivisionError | OSError

type_synonym path = string

subsection \<open>\<open>str(n)\<close>, \<open>str.lower\<close>, \<open>str.endswith\<close>\<close>

definition digit_char :: "int \<Rightarrow> char" where
  "digit_char d = (if 0 \<le> d \<and> d < 10 then ''0123456789'' ! nat d else CHR ''?'')"

text \<open>The decimal digits of an integer that is not negative.\<close>

function digits :: "int \<Rightarrow> string" where
  "digits n = (if n < 10 then [digit_char n] else digits (n div 10) @ [digit_char (n mod 10)])"
  by pat_completeness auto
termination
  by (relation "measure nat") auto

definition str_nat :: "nat \<Rightarrow> string" where
  "str_nat n = digits (int n)"

text \<open>
  \<open>str.lower\<close> on the letters A to Z. File names are byte strings here; no character
  outside A to Z lowers to a letter of the extensions or of the dataset folder names, so
  the comparisons below come out as in Python.
\<close>

definition lower_char :: "char \<Rightarrow> char" where
  "lower_char c =
     (let n = (of_char c :: nat)
      in if 65 \<le> n \<and> n \<le> 90 then ''abcdefghijklmnopqrstuvwxyz'' ! (n - 65) else c)"

definition lower :: "string \<Rightarrow> string" where
  "lower s = map lower_char s"

text \<open>\<open>s.endswith(t)\<close> for one string, and for a tuple of strings.\<close>

definition endswith :: "string \<Rightarrow> string \<Rightarrow> bool" where
  "endswith s t = (length t \<le> length s \<and> drop (length s - length t) s = t)"

definition endswith_any :: "string \<Rightarrow> string list \<Rightarrow> bool" where
  "endswith_any s ts = list_ex (endswith s) ts"

subsection \<open>True division of integers and the format \<open>.2f\<close>\<close>

text \<open>
  A finite double is a sign and a magnitude \<open>mantissa * 2 ^ exponent\<close>; the sign is
  kept apart because Python has a negative zero, which prints as \<open>-0.00\<close>.
\<close>

datatype py_float = PyFloat (negative: bool) (mantissa: int) (exponent: int)

definition float_value :: "py_float \<Rightarrow> rat" where
  "float_value x = (if negative x then - 1 else 1) * of_int (mantissa x) * 2 powi (exponent x)"

text \<open>
  The integer nearest to \<open>n / d\<close>, a tie going to the even neighbour
  (for \<open>0 \<le> n\<close> and \<open>0 < d\<close>).
\<close>

definition round_half_even :: "int \<Rightarrow> int \<Rightarrow> int" where
  "round_half_even n d =
     (let q = n div d; r = n mod d
      in if 2 * r < d then q else if d < 2 * r then q + 1 else if even q then q else q + 1)"

text \<open>The integer nearest to \<open>n / (d * 2 ^ u)\<close>, for an exponent \<open>u\<close> of either sign.\<close>

definition round_scaled :: "int \<Rightarrow> int \<Rightarrow> int \<Rightarrow> int" where
  "round_scaled n d u =
     (if 0 \<le> u then round_half_even n (d * 2 ^ nat u)
      else round_half_even (n * 2 ^ nat (- u)) d)"

text \<open>\<open>int.bit_length\<close>: the number of binary digits of \<open>n\<close> (for \<open>0 \<le> n\<close>).\<close>

function bit_length :: "int \<Rightarrow> int" where
  "bit_length n = (if n \<le> 0 then 0 else 1 + bit_length (n div 2))"
  by pat_completeness auto
termination
  by (relation "measure nat") auto

text \<open>
  \<open>a / b\<close> on Python integers is the double nearest to the exact quotient (ties to
  even, 53 significant bits, least exponent \<open>-1074\<close>), raising \<open>OverflowError\<close> when
  that is \<open>2 ^ 1024\<close> or more and \<open>ZeroDivisionError\<close> when \<open>b = 0\<close>.
  \<open>e\<close> is the binary exponent of the quotient: \<open>2 ^ e \<le> n / d < 2 ^ (e + 1)\<close>.
\<close>

definition quotient_exponent :: "int \<Rightarrow> int \<Rightarrow> int" where
  "quotient_exponent n d =
     (let k = bit_length n - bit_length d
      in if (if 0 \<le> k then d * 2 ^ nat k \<le> n else d \<le> n * 2 ^ nat (- k)) then k else k - 1)"

definition py_truediv :: "int \<Rightarrow> int \<Rightarrow> py_error + py_float" where
  "py_truediv a b =
     (if b = 0 then Inl ZeroDivisionError
      else let neg = ((a < 0) \<noteq> (b < 0)); n = \<bar>a\<bar>; d = \<bar>b\<bar>
        in if n = 0 then Inr (PyFloat neg 0 0)
           else let u = max (quotient_exponent n d) (- 1022) - 52;
                    m = round_scaled n d u
             in if 0 \<le> u \<and> 2 ^ 1024 \<le> m * 2 ^ nat u then Inl OverflowError
                else Inr (PyFloat neg m u))"

text \<open>
  \<open>f"{x:.2f}"\<close>: the exact value of the double, rounded to hundredths (ties to even),
  written as sign, integer digits, a point and two digits.
\<close>

definition hundredths :: "py_float \<Rightarrow> int" where
  "hundredths x = round_scaled (mantissa x * 100) 1 (- exponent x)"

definition format_2f :: "py_float \<Rightarrow> string" where
  "format_2f x =
     (let h = hundredths x
      in (if negative x then ''-'' else '''') @ digits (h div 100) @ ''.''
         @ [digit_char (h mod 100 div 10), digit_char (h mod 10)])"

section \<open>EpochCalculator\<close>

text \<open>
  The four line edits and the result label. \<open>int_of\<close> is Python's \<open>int(text)\<close>:
  \<open>None\<close> stands for \<open>ValueError\<close>.
\<close>

record epoch_form =
  images_entry :: string
  repeats_entry :: string
  batch_entry :: string
  steps_entry :: string
  result_label :: string

text \<open>\<open>int(text) if text else dflt\<close>\<close>

definition int_or_default :: "(string \<Rightarrow> int option) \<Rightarrow> string \<Rightarrow> int \<Rightarrow> py_error + int" where
  "int_or_default int_of txt dflt =
     (if txt \<noteq> [] then (case int_of txt of None \<Rightarrow> Inl ValueError | Some n \<Rightarrow> Inr n)
      else Inr dflt)"

text \<open>
  The body of the \<open>try\<close> block of \<open>calculate_epochs\<close>: the text the result label is
  set to, or the exception raised.
\<close>

definition epochs_try :: "(string \<Rightarrow> int option) \<Rightarrow> epoch_form \<Rightarrow> py_error + string" where
  "epochs_try int_of f =
     (case int_or_default int_of (images_entry f) 0 of Inl e \<Rightarrow> Inl e | Inr images \<Rightarrow>
      case int_or_default int_of (repeats_entry f) 0 of Inl e \<Rightarrow> Inl e | Inr repeats \<Rightarrow>
      case int_or_default int_of (batch_entry f) 0 of Inl e \<Rightarrow> Inl e | Inr batch \<Rightarrow>
      case int_or_default int_of (steps_entry f) 2000 of Inl e \<Rightarrow> Inl e | Inr steps \<Rightarrow>
        if images > 0 \<and> repeats > 0 \<and> batch > 0
        then (case py_truediv (steps * batch) (images * repeats) of
                Inl e \<Rightarrow> Inl e
              | Inr total_epochs \<Rightarrow> Inr (''Optimal Epochs: '' @ format_2f total_epochs))
        else Inr ''Enter valid positive integers.'')"

text \<open>
  \<open>calculate_epochs\<close>: \<open>except ValueError\<close> sets the label; any other exception leaves
  the method (\<open>Inl\<close>) with the label as it was.
\<close>

definition calculate_epochs :: "(string \<Rightarrow> int option) \<Rightarrow> epoch_form \<Rightarrow> py_error + epoch_form" where
  "calculate_epochs int_of f =
     (case epochs_try int_of f of
        Inr txt \<Rightarrow> Inr (f\<lparr>result_label := txt\<rparr>)
      | Inl ValueError \<Rightarrow> Inr (f\<lparr>result_label := ''Invalid input. Enter integers only.''\<rparr>)
      | Inl e \<Rightarrow> Inl e)"

text \<open>
  A parser for the concrete examples: plain decimal numerals with an optional sign, on which
  \<open>int(text)\<close> gives the same number.
\<close>

definition is_digit :: "char \<Rightarrow> bool" where
  "is_digit c = (let n = (of_char c :: nat) in 48 \<le> n \<and> n \<le> 57)"

definition digits_value :: "string \<Rightarrow> int" where
  "digits_value s = foldl (\<lambda>acc c. 10 * acc + (of_char c - 48)) 0 s"

definition decimal_int :: "string \<Rightarrow> int option" where
  "decimal_int s =
     (case s of
        [] \<Rightarrow> None
      | c # cs \<Rightarrow>
          if c = CHR ''-'' \<or> c = CHR ''+''
          then (if cs \<noteq> [] \<and> list_all is_digit cs
                then Some ((if c = CHR ''-'' then - 1 else 1) * digits_value cs) else None)
          else (if list_all is_digit s then Some (digits_value s) else None))"

text \<open>
  \<open>QLineEdit.setText\<close> on one of the four entries, with the slot connected to
  \<open>textChanged\<close>: the signal is emitted only when the text changes, and the slot is
  \<open>calculate_epochs\<close>. The second component is the exception that leaves the slot, if any;
  the first is the form as the call leaves it.
\<close>

datatype field = Images | Repeats | Batch | Steps

definition field_text :: "field \<Rightarrow> epoch_form \<Rightarrow> string" where
  "field_text fld f =
     (case fld of Images \<Rightarrow> images_entry f | Repeats \<Rightarrow> repeats_entry f
      | Batch \<Rightarrow> batch_entry f | Steps \<Rightarrow> steps_entry f)"

definition put_text :: "field \<Rightarrow> string \<Rightarrow> epoch_form \<Rightarrow> epoch_form" where
  "put_text fld txt f =
     (case fld of Images \<Rightarrow> f\<lparr>images_entry := txt\<rparr> | Repeats \<Rightarrow> f\<lparr>repeats_entry := txt\<rparr>
      | Batch \<Rightarrow> f\<lparr>batch_entry := txt\<rparr> | Steps \<Rightarrow> f\<lparr>steps_entry := txt\<rparr>)"

definition setText :: "(string \<Rightarrow> int option) \<Rightarrow> field \<Rightarrow> string \<Rightarrow> epoch_form
    \<Rightarrow> epoch_form \<times> py_error option" where
  "setText int_of fld txt f =
     (if field_text fld f = txt then (f, None)
      else (case calculate_epochs int_of (put_text fld txt f) of
              Inr f' \<Rightarrow> (f', None)
            | Inl e \<Rightarrow> (put_text fld txt f, Some e)))"

definition update_image_count :: "(string \<Rightarrow> int option) \<Rightarrow> nat \<Rightarrow> epoch_form
    \<Rightarrow> epoch_form \<times> py_error option" where
  "update_image_count int_of image_count f = setText int_of Images (str_nat image_count) f"

section \<open>The world outside the program\<close>

text \<open>
  What the program asks of Python, the operating system and Qt, as one record:
  \<open>py_int\<close> is \<open>int(text)\<close> (\<open>None\<close> for \<open>ValueError\<close>), \<open>script_dir\<close> is \<open>SCRIPT_DIR\<close>,
  \<open>path_join\<close>, \<open>path_exists\<close>, \<open>path_isdir\<close> and \<open>listdir\<close> are those of \<open>os\<close>,
  \<open>image_read\<close> is \<open>QImageReader(path).read()\<close> with \<open>None\<close> for a null image,
  \<open>image_scaled\<close> is \<open>image.scaled(1920, 1080, Qt.KeepAspectRatio)\<close>, and \<open>file_read\<close>
  is \<open>open(path, 'r').read()\<close> with \<open>Inl\<close> the message of the exception.
\<close>

record 'i env =
  py_int :: "string \<Rightarrow> int option"
  script_dir :: path
  path_join :: "path \<Rightarrow> string \<Rightarrow> path"
  path_exists :: "path \<Rightarrow> bool"
  path_isdir :: "path \<Rightarrow> bool"
  listdir :: "path \<Rightarrow> py_error + string list"
  image_read :: "path \<Rightarrow> 'i option"
  image_scaled :: "'i \<Rightarrow> 'i"
  file_read :: "path \<Rightarrow> string + string"

text \<open>\<open>os.path.join\<close> of two components on POSIX, for concrete worlds.\<close>

definition posix_join :: "path \<Rightarrow> string \<Rightarrow> path" where
  "posix_join a b =
     (if b \<noteq> [] \<and> hd b = CHR ''/'' then b
      else if a = [] \<or> last a = CHR ''/'' then a @ b
      else a @ ''/'' @ b)"

section \<open>ImageLoaderThread\<close>

definition MAX_IMAGES_TO_DISPLAY :: nat where
  "MAX_IMAGES_TO_DISPLAY = 50"

definition image_extensions :: "string list" where
  "image_extensions = [''.png'', ''.jpg'', ''.jpeg'', ''.bmp'']"

text \<open>
  \<open>run\<close>: what the thread emits with \<open>image_loaded_signal\<close>, the paths and the flag that
  \<open>update_images\<close> receives as \<open>all_loaded\<close>; \<open>Inl\<close> when \<open>os.listdir\<close> raises and nothing
  is emitted.
\<close>

definition run :: "'i env \<Rightarrow> path \<Rightarrow> py_error + (path list \<times> bool)" where
  "run env directory =
     (case listdir env directory of
        Inl e \<Rightarrow> Inl e
      | Inr names \<Rightarrow>
          (let loaded_image_paths =
                 map (path_join env directory)
                   (filter (\<lambda>f. endswith_any (lower f) image_extensions) names)
           in if length loaded_image_paths > MAX_IMAGES_TO_DISPLAY
              then Inr (take MAX_IMAGES_TO_DISPLAY loaded_image_paths, False)
              else Inr (loaded_image_paths, True)))"

section \<open>ImageViewer and MainWindow\<close>

datatype 'i qpixmap = QPixmap_null | QPixmap_of 'i

text \<open>What the program does to the outside, in the order it does it.\<close>

datatype effect =
    Print string
  | ImageRead path
  | Dialog "string list"
  | ThreadStart path
  | CountLabelText string
  | ImagesEntryText string
  | FullView path

text \<open>
  The state of the window: the epoch form, the viewer's path list, status label and grid
  (each widget with its path, row and column), the module's \<open>image_cache\<close>, the style
  sheet of the main window, and the effects so far.
\<close>

record 'i app =
  epoch_calculator :: epoch_form
  image_paths :: "path list"
  image_count_label :: string
  grid_layout :: "(path \<times> nat \<times> nat) list"
  image_cache :: "path \<rightharpoonup> 'i qpixmap"
  style_sheet :: string
  effects :: "effect list"

definition DATASET_FOLDER_NAMES :: "string list" where
  "DATASET_FOLDER_NAMES = [''AI'', ''Dataset'', ''DATASETS'']"

definition find_matching_dataset_dirs :: "'i env \<Rightarrow> path \<Rightarrow> py_error + string list" where
  "find_matching_dataset_dirs env directory =
     (case listdir env directory of
        Inl e \<Rightarrow> Inl e
      | Inr names \<Rightarrow>
          Inr (filter (\<lambda>d. path_isdir env (path_join env directory d)
                         \<and> list_ex (\<lambda>name. lower d = lower name) DATASET_FOLDER_NAMES) names))"

definition load_and_cache_image :: "'i env \<Rightarrow> path \<Rightarrow> 'i app \<Rightarrow> 'i qpixmap \<times> 'i app" where
  "load_and_cache_image env img_path s =
     (case image_cache s img_path of
        Some cached \<Rightarrow> (cached, s)
      | None \<Rightarrow>
          (case image_read env img_path of
             None \<Rightarrow>
               (QPixmap_null,
                s\<lparr>effects := effects s @
                     [ImageRead img_path,
                      Print (''Error loading image '' @ img_path @ '': Failed to load image'')]\<rparr>)
           | Some img \<Rightarrow>
               (let pixmap = QPixmap_of (image_scaled env img)
                in (pixmap,
                    s\<lparr>image_cache := (image_cache s)(img_path \<mapsto> pixmap),
                      effects := effects s @ [ImageRead img_path]\<rparr>))))"

fun display_loop :: "'i env \<Rightarrow> path list \<Rightarrow> nat \<Rightarrow> nat \<Rightarrow> 'i app \<Rightarrow> 'i app" where
  "display_loop env [] row col s = s"
| "display_loop env (img_path # rest) row col s =
     (case load_and_cache_image env img_path s of
        (pixmap, s1) \<Rightarrow>
          if pixmap = QPixmap_null then display_loop env rest row col s1
          else (let s2 = s1\<lparr>grid_layout := grid_layout s1 @ [(img_path, row, col)]\<rparr>
                in if col + 1 \<ge> 5 then display_loop env rest (row + 1) 0 s2
                   else display_loop env rest row (col + 1) s2))"

definition display_images :: "'i env \<Rightarrow> 'i app \<Rightarrow> 'i app" where
  "display_images env s = display_loop env (image_paths s) 0 0 s"

text \<open>
  The slots below return the state as the slot leaves it and the exception that left it,
  if any.
\<close>

definition update_images :: "'i env \<Rightarrow> path list \<Rightarrow> bool \<Rightarrow> 'i app \<Rightarrow> 'i app \<times> py_error option" where
  "update_images env paths all_loaded s =
     (let label = (if \<not> all_loaded
                   then ''Too many images. Displaying '' @ str_nat MAX_IMAGES_TO_DISPLAY @ '' images.''
                   else ''Total Images Found: '' @ str_nat (length paths));
          s1 = s\<lparr>image_paths := paths, image_count_label := label,
                 effects := effects s @ [CountLabelText label]\<rparr>;
          count_text = str_nat (length (image_paths s1));
          (form, raised) = update_image_count (py_int env) (length (image_paths s1)) (epoch_calculator s1);
          s2 = s1\<lparr>epoch_calculator := form,
                  effects := effects s1 @ [ImagesEntryText count_text]\<rparr>
      in case raised of
           Some e \<Rightarrow> (s2, Some e)
         | None \<Rightarrow> (display_images env s2, None))"

definition start_loading_images :: "'i env \<Rightarrow> path \<Rightarrow> 'i app \<Rightarrow> 'i app \<times> py_error option" where
  "start_loading_images env directory s =
     (let s1 = s\<lparr>image_paths := [], grid_layout := [],
                 effects := effects s @ [ThreadStart directory]\<rparr>
      in case run env directory of
           Inl e \<Rightarrow> (s1, Some e)
         | Inr (paths, all_loaded) \<Rightarrow> update_images env paths all_loaded s1)"

definition on_directory_selected :: "'i env \<Rightarrow> string \<Rightarrow> 'i app \<Rightarrow> 'i app \<times> py_error option" where
  "on_directory_selected env selected_directory s =
     (let full_path = path_join env (script_dir env) selected_directory
      in start_loading_images env full_path s)"

text \<open>
  The dialog offers \<open>directories\<close> in a combo box. \<open>accepted\<close> is connected to
  \<open>on_directory_selected\<close> only, so the dialog stays open after OK: \<open>ok_clicks\<close> is the
  combo box text at each OK before the dialog is closed, \<open>[]\<close> when it is cancelled at once.
\<close>

fun ok_loop :: "'i env \<Rightarrow> string list \<Rightarrow> 'i app \<Rightarrow> 'i app \<times> py_error option" where
  "ok_loop env [] s = (s, None)"
| "ok_loop env (selected # later) s =
     (case on_directory_selected env selected s of
        (s1, Some e) \<Rightarrow> (s1, Some e)
      | (s1, None) \<Rightarrow> ok_loop env later s1)"

definition show_directory_selector_dialog ::
    "'i env \<Rightarrow> string list \<Rightarrow> string list \<Rightarrow> 'i app \<Rightarrow> 'i app \<times> py_error option" where
  "show_directory_selector_dialog env ok_clicks directories s =
     ok_loop env ok_clicks (s\<lparr>effects := effects s @ [Dialog directories]\<rparr>)"

definition load_images :: "'i env \<Rightarrow> string list \<Rightarrow> path \<Rightarrow> 'i app \<Rightarrow> 'i app \<times> py_error option" where
  "load_images env ok_clicks directory s =
     (if \<not> path_exists env directory
      then (s\<lparr>image_count_label := ''Error: Directory does not exist.''\<rparr>, None)
      else (case find_matching_dataset_dirs env directory of
              Inl e \<Rightarrow> (s, Some e)
            | Inr matching_dirs \<Rightarrow>
                if matching_dirs \<noteq> []
                then show_directory_selector_dialog env ok_clicks matching_dirs s
                else start_loading_images env directory s))"

definition browse_directory :: "'i env \<Rightarrow> path \<Rightarrow> string list \<Rightarrow> 'i app \<Rightarrow> 'i app \<times> py_error option" where
  "browse_directory env folder_path ok_clicks s =
     (if folder_path \<noteq> [] then load_images env ok_clicks folder_path s else (s, None))"

definition view_full_image :: "path \<Rightarrow> 'i app \<Rightarrow> 'i app" where
  "view_full_image img_path s = s\<lparr>effects := effects s @ [FullView img_path]\<rparr>"

definition apply_custom_theme :: "string \<Rightarrow> 'i app \<Rightarrow> 'i app" where
  "apply_custom_theme custom_css s = s\<lparr>style_sheet := custom_css\<rparr>"

definition import_theme :: "'i env \<Rightarrow> path \<Rightarrow> 'i app \<Rightarrow> 'i app" where
  "import_theme env file_path s =
     (if file_path \<noteq> []
      then (case file_read env file_path of
              Inr custom_css \<Rightarrow> apply_custom_theme custom_css s
            | Inl e \<Rightarrow> s\<lparr>effects := effects s @ [Print (''Error importing theme: '' @ e)]\<rparr>)
      else s)"

text \<open>
  Everything the user can do, each with the world as it is at that moment, and the window
  as it starts.
\<close>

datatype action =
    SelectDirectory path "string list"
  | ImportTheme path
  | TypeText field string
  | ClickThumbnail path

definition perform :: "'i env \<Rightarrow> action \<Rightarrow> 'i app \<Rightarrow> 'i app" where
  "perform env a s =
     (case a of
        SelectDirectory folder_path ok_clicks \<Rightarrow> fst (browse_directory env folder_path ok_clicks s)
      | ImportTheme file_path \<Rightarrow> import_theme env file_path s
      | TypeText fld txt \<Rightarrow>
          s\<lparr>epoch_calculator := fst (setText (py_int env) fld txt (epoch_calculator s))\<rparr>
      | ClickThumbnail img_path \<Rightarrow> view_full_image img_path s)"

fun perform_all :: "('i env \<times> action) list \<Rightarrow> 'i app \<Rightarrow> 'i app" where
  "perform_all [] s = s"
| "perform_all ((env, a) # later) s = perform_all later (perform env a s)"

definition initial_form :: epoch_form where
  "initial_form =
     \<lparr>images_entry = '''', repeats_entry = '''', batch_entry = '''', steps_entry = ''2000'',
      result_label = ''Optimal Epochs: ''\<rparr>"

definition initial_app :: "'i app" where
  "initial_app =
     \<lparr>epoch_calculator = initial_form, image_paths = [],
      image_count_label = ''Total Images Found: 0'', grid_layout = [],
      image_cache = Map.empty, style_sheet = '''', effects = []\<rparr>"

section \<open>Notions used in the statements\<close>

text \<open>
  A path is rendered by a pass when the pixmap that \<open>load_and_cache_image\<close> returns for
  it is not null, which is the test of \<open>display_images\<close>. A pixmap is one that the world
  decodes for a path when \<open>QImageReader\<close> reads an image there and the pixmap is that
  image, scaled.
\<close>

definition renders :: "'i env \<Rightarrow> 'i app \<Rightarrow> path \<Rightarrow> bool" where
  "renders env s img_path = (fst (load_and_cache_image env img_path s) \<noteq> QPixmap_null)"

definition decodes_to :: "'i env \<Rightarrow> path \<Rightarrow> 'i qpixmap \<Rightarrow> bool" where
  "decodes_to env img_path pixmap =
     (case image_read env img_path of
        None \<Rightarrow> False
      | Some img \<Rightarrow> pixmap = QPixmap_of (image_scaled env img))"

text \<open>The effects of decoding: reads of image files and printed messages.\<close>

fun decoding_effect :: "effect \<Rightarrow> bool" where
  "decoding_effect (ImageRead p) = True"
| "decoding_effect (Print m) = True"
| "decoding_effect e = False"

text \<open>
  The number that a decimal numeral shows: the digits before the point and the digits
  after it.
\<close>

definition decimal_value :: "string \<Rightarrow> string \<Rightarrow> rat" where
  "decimal_value whole cents =
     of_int (digits_value whole) + of_int (digits_value cents) / 10 ^ length cents"

text \<open>The text that \<open>update_images\<close> puts in the status label.\<close>

definition count_label :: "bool \<Rightarrow> nat \<Rightarrow> string" where
  "count_label all_loaded n =
     (if \<not> all_loaded
      then ''Too many images. Displaying '' @ str_nat MAX_IMAGES_TO_DISPLAY @ '' images.''
      else ''Total Images Found: '' @ str_nat n)"

text \<open>Rendering passes over the same path list, one after the other, each in its world.\<close>

fun render_passes :: "'i env list \<Rightarrow> 'i app \<Rightarrow> 'i app" where
  "render_passes [] s = s"
| "render_passes (env # envs) s = render_passes envs (display_images env s)"

section \<open>A concrete world\<close>

text \<open>
  A small file system for evaluating the program: \<open>/pics\<close> holds three image files and a
  text file, \<open>/data\<close> holds a folder \<open>Dataset\<close> with one image, the script lives in
  \<open>/app\<close>, which has a \<open>Dataset\<close> folder of its own with another image. A decoded
  image is a number. \<open>/pics/broken.bmp\<close> does not decode.
\<close>

definition demo_listdir :: "path \<Rightarrow> py_error + string list" where
  "demo_listdir p =
     (if p = ''/pics'' then Inr [''a.png'', ''notes.txt'', ''broken.bmp'', ''b.JPG'']
      else if p = ''/data'' then Inr [''Dataset'', ''readme.md'']
      else if p = ''/data/Dataset'' then Inr [''cat.jpeg'']
      else if p = ''/app'' then Inr [''themes'', ''Dataset'']
      else if p = ''/app/Dataset'' then Inr [''other.png'']
      else Inl OSError)"

definition demo_image_read :: "path \<Rightarrow> nat option" where
  "demo_image_read p =
     (if p = ''/pics/a.png'' then Some 1
      else if p = ''/pics/b.JPG'' then Some 2
      else if p = ''/data/Dataset/cat.jpeg'' then Some 3
      else if p = ''/app/Dataset/other.png'' then Some 4
      else None)"

definition demo_env :: "nat env" where
  "demo_env =
     \<lparr>py_int = decimal_int, script_dir = ''/app'', path_join = posix_join,
      path_exists =
        (\<lambda>p. p \<in> set [''/pics'', ''/data'', ''/data/Dataset'', ''/app'', ''/app/themes'',
                        ''/app/Dataset'']),
      path_isdir =
        (\<lambda>p. p \<in> set [''/pics'', ''/data'', ''/data/Dataset'', ''/app'', ''/app/themes'',
                        ''/app/Dataset'']),
      listdir = demo_listdir,
      image_read = demo_image_read,
      image_scaled = (\<lambda>i. i),
      file_read = (\<lambda>p. if p = ''/app/themes/dark.css'' then Inr ''QWidget { color: white; }''
                        else Inl ''No such file or directory'')\<rparr>"

text \<open>
  The same file system later: \<open>/pics/a.png\<close> has been overwritten and no longer decodes,
  \<open>/pics/broken.bmp\<close> has been repaired.
\<close>

definition corrupted_env :: "nat env" where
  "corrupted_env =
     demo_env\<lparr>image_read :=
       (\<lambda>p. if p = ''/pics/a.png'' then None
            else if p = ''/pics/broken.bmp'' then Some 5
            else demo_image_read p)\<rparr>"

text \<open>
  A folder \<open>/big\<close> with 51 image files and a text file, in the same world.
\<close>

definition big_listing :: "string list" where
  "big_listing =
     [''img01.png'', ''img02.JPG'', ''img03.jpeg'', ''img04.Bmp'', ''img05.png'',
      ''img06.JPG'', ''img07.jpeg'', ''img08.Bmp'', ''img09.png'', ''img10.JPG'',
      ''notes.txt'', ''img11.jpeg'', ''img12.Bmp'', ''img13.png'', ''img14.JPG'',
      ''img15.jpeg'', ''img16.Bmp'', ''img17.png'', ''img18.JPG'', ''img19.jpeg'',
      ''img20.Bmp'', ''img21.png'', ''img22.JPG'', ''img23.jpeg'', ''img24.Bmp'',
      ''img25.png'', ''img26.JPG'', ''img27.jpeg'', ''img28.Bmp'', ''img29.png'',
      ''img30.JPG'', ''img31.jpeg'', ''img32.Bmp'', ''img33.png'', ''img34.JPG'',
      ''img35.jpeg'', ''img36.Bmp'', ''img37.png'', ''img38.JPG'', ''img39.jpeg'',
      ''img40.Bmp'', ''img41.png'', ''img42.JPG'', ''img43.jpeg'', ''img44.Bmp'',
      ''img45.png'', ''img46.JPG'', ''img47.jpeg'', ''img48.Bmp'', ''img49.png'',
      ''img50.JPG'', ''img51.jpeg'']"

definition big_env :: "nat env" where
  "big_env = demo_env\<lparr>listdir := (\<lambda>p. if p = ''/big'' then Inr big_listing else demo_listdir p)\<rparr>"

section \<open>Properties of the epoch form\<close>

declare bit_length.simps [simp del]
declare digits.simps [simp del]

lemmas eval_form = calculate_epochs_def epochs_try_def int_or_default_def decimal_int_def
  is_digit_def digits_value_def field_text_def

lemma calculate_epochs_ValueError:
  "epochs_try int_of f = Inl ValueError \<Longrightarrow>
   calculate_epochs int_of f = Inr (f\<lparr>result_label := ''Invalid input. Enter integers only.''\<rparr>)"
  by (simp add: calculate_epochs_def)

text \<open>
  C5. Whenever one of the four entries holds text that is not empty and that \<open>int\<close>
  rejects, \<open>calculate_epochs\<close> ends normally with the result label set to the invalid
  input message, whatever the other entries hold; so no computed number is shown.
\<close>

theorem non_integer_text_is_invalid_input:
  assumes "field_text fld f \<noteq> []" and "int_of (field_text fld f) = None"
  shows "calculate_epochs int_of f
    = Inr (f\<lparr>result_label := ''Invalid input. Enter integers only.''\<rparr>)"
proof -
  have "epochs_try int_of f = Inl ValueError"
    using assms
    by (cases fld)
      (auto simp: epochs_try_def int_or_default_def field_text_def split: option.splits sum.splits)
  then show ?thesis by (rule calculate_epochs_ValueError)
qed

theorem non_integer_text_is_invalid_input_witness:
  "calculate_epochs decimal_int
     \<lparr>images_entry = ''12'', repeats_entry = ''3'', batch_entry = ''two'', steps_entry = '''',
      result_label = ''Optimal Epochs: ''\<rparr>
   = Inr \<lparr>images_entry = ''12'', repeats_entry = ''3'', batch_entry = ''two'', steps_entry = '''',
      result_label = ''Invalid input. Enter integers only.''\<rparr>"
  using non_integer_text_is_invalid_input [of Batch
     "\<lparr>images_entry = ''12'', repeats_entry = ''3'', batch_entry = ''two'', steps_entry = '''',
      result_label = ''Optimal Epochs: ''\<rparr>" decimal_int]
  by (simp add: field_text_def decimal_int_def is_digit_def)

text \<open>
  C4, as stated, fails: with the images entry blank (so 0) and repeats and batch 1, but
  text in the steps entry that is not an integer, the three required entries parse and
  one is not positive, yet the label is the invalid input message: the steps entry is
  parsed before the sign check.
\<close>

theorem non_positive_with_bad_steps_counterexample:
  "int_or_default decimal_int '''' 0 = Inr 0
   \<and> int_or_default decimal_int ''1'' 0 = Inr 1
   \<and> calculate_epochs decimal_int
       \<lparr>images_entry = '''', repeats_entry = ''1'', batch_entry = ''1'', steps_entry = ''x'',
        result_label = ''Optimal Epochs: ''\<rparr>
     = Inr \<lparr>images_entry = '''', repeats_entry = ''1'', batch_entry = ''1'', steps_entry = ''x'',
        result_label = ''Invalid input. Enter integers only.''\<rparr>"
  by (simp add: eval_form)

text \<open>
  C4, amended. When all four entries parse (a blank entry standing for 0, and for 2000 in
  the steps entry) and one of images, repeats and batch is not positive,
  \<open>calculate_epochs\<close> ends normally with the label asking for positive integers, which
  is not a computed number. Blank required entries take this branch.
\<close>

theorem non_positive_asks_for_positive_integers:
  assumes "int_or_default int_of (images_entry f) 0 = Inr images"
    and "int_or_default int_of (repeats_entry f) 0 = Inr repeats"
    and "int_or_default int_of (batch_entry f) 0 = Inr batch"
    and "int_or_default int_of (steps_entry f) 2000 = Inr steps"
    and "images \<le> 0 \<or> repeats \<le> 0 \<or> batch \<le> 0"
  shows "calculate_epochs int_of f = Inr (f\<lparr>result_label := ''Enter valid positive integers.''\<rparr>)"
  using assms by (auto simp: calculate_epochs_def epochs_try_def)

theorem non_positive_asks_for_positive_integers_witness:
  "calculate_epochs decimal_int
     \<lparr>images_entry = '''', repeats_entry = ''3'', batch_entry = ''-2'', steps_entry = '''',
      result_label = ''Optimal Epochs: ''\<rparr>
   = Inr \<lparr>images_entry = '''', repeats_entry = ''3'', batch_entry = ''-2'', steps_entry = '''',
      result_label = ''Enter valid positive integers.''\<rparr>"
  using non_positive_asks_for_positive_integers [of decimal_int
     "\<lparr>images_entry = '''', repeats_entry = ''3'', batch_entry = ''-2'', steps_entry = '''',
      result_label = ''Optimal Epochs: ''\<rparr>" 0 3 "- 2" 2000]
  by (simp add: int_or_default_def decimal_int_def is_digit_def digits_value_def)

section \<open>Properties of the directory scan\<close>

lemma endswith_suffix: "endswith s t \<longleftrightarrow> suffix t s"
proof
  assume "endswith s t"
  then have "s = take (length s - length t) s @ t"
    by (metis append_take_drop_id endswith_def)
  then show "suffix t s" by (metis suffixI)
next
  assume "suffix t s"
  then obtain zs where "s = zs @ t" by (auto simp: suffix_def)
  then show "endswith s t" by (simp add: endswith_def)
qed

lemma qualifying_iff:
  "endswith_any (lower f) image_extensions
   \<longleftrightarrow> (\<exists>ext \<in> {''.png'', ''.jpg'', ''.jpeg'', ''.bmp''}. suffix ext (lower f))"
  by (simp add: endswith_any_def image_extensions_def endswith_suffix)

lemmas eval_names = lower_def lower_char_def endswith_def endswith_any_def image_extensions_def

lemmas eval_demo = demo_env_def demo_listdir_def demo_image_read_def posix_join_def

text \<open>
  C1, as stated, fails on the flag. \<open>/big\<close> has 51 qualifying files: the thread delivers
  50 paths and the flag \<open>False\<close>, where the claim has a truncated flag equal to true.
  \<open>/pics\<close> has 3 qualifying files: the thread delivers them all and the flag \<open>True\<close>,
  where the claim has a truncated flag equal to false. The flag that is delivered is the
  completion flag \<open>all_loaded\<close>.
\<close>

theorem scan_delivers_completion_flag_counterexample:
  "length (filter (\<lambda>f. endswith_any (lower f) image_extensions) big_listing) = 51
   \<and> map_sum id (\<lambda>emitted. (length (fst emitted), snd emitted)) (run big_env ''/big'')
       = Inr (50, False)
   \<and> run demo_env ''/pics''
       = Inr ([''/pics/a.png'', ''/pics/broken.bmp'', ''/pics/b.JPG''], True)"
  by (simp add: big_env_def big_listing_def eval_demo run_def eval_names MAX_IMAGES_TO_DISPLAY_def)

text \<open>
  C1, amended. For a directory that \<open>os.listdir\<close> lists, let the qualifying names be
  those whose lower-cased form ends in \<open>.png\<close>, \<open>.jpg\<close>, \<open>.jpeg\<close> or \<open>.bmp\<close>, in
  listing order. With more than 50 qualifying names the thread delivers the paths of the
  first 50, which are 50 paths, and the completion flag \<open>False\<close>; otherwise it delivers
  the paths of all of them and the completion flag \<open>True\<close>.
\<close>

theorem scan_caps_at_fifty:
  assumes "listdir env directory = Inr names"
  shows "let qualifying =
            filter (\<lambda>f. \<exists>ext \<in> {''.png'', ''.jpg'', ''.jpeg'', ''.bmp''}. suffix ext (lower f)) names
         in if length qualifying > 50
            then run env directory = Inr (map (path_join env directory) (take 50 qualifying), False)
                 \<and> length (map (path_join env directory) (take 50 qualifying)) = 50
            else run env directory = Inr (map (path_join env directory) qualifying, True)"
  using assms
  by (simp add: run_def qualifying_iff MAX_IMAGES_TO_DISPLAY_def Let_def take_map)

theorem scan_caps_at_fifty_witness:
  "run big_env ''/big''
     = Inr ([''/big/img01.png'', ''/big/img02.JPG'', ''/big/img03.jpeg'',
            ''/big/img04.Bmp'', ''/big/img05.png'', ''/big/img06.JPG'',
            ''/big/img07.jpeg'', ''/big/img08.Bmp'', ''/big/img09.png'',
            ''/big/img10.JPG'', ''/big/img11.jpeg'', ''/big/img12.Bmp'',
            ''/big/img13.png'', ''/big/img14.JPG'', ''/big/img15.jpeg'',
            ''/big/img16.Bmp'', ''/big/img17.png'', ''/big/img18.JPG'',
            ''/big/img19.jpeg'', ''/big/img20.Bmp'', ''/big/img21.png'',
            ''/big/img22.JPG'', ''/big/img23.jpeg'', ''/big/img24.Bmp'',
            ''/big/img25.png'', ''/big/img26.JPG'', ''/big/img27.jpeg'',
            ''/big/img28.Bmp'', ''/big/img29.png'', ''/big/img30.JPG'',
            ''/big/img31.jpeg'', ''/big/img32.Bmp'', ''/big/img33.png'',
            ''/big/img34.JPG'', ''/big/img35.jpeg'', ''/big/img36.Bmp'',
            ''/big/img37.png'', ''/big/img38.JPG'', ''/big/img39.jpeg'',
            ''/big/img40.Bmp'', ''/big/img41.png'', ''/big/img42.JPG'',
            ''/big/img43.jpeg'', ''/big/img44.Bmp'', ''/big/img45.png'',
            ''/big/img46.JPG'', ''/big/img47.jpeg'', ''/big/img48.Bmp'',
            ''/big/img49.png'', ''/big/img50.JPG''],
            False)"
  using scan_caps_at_fifty [of big_env "''/big''" big_listing]
  by (simp add: big_env_def big_listing_def eval_demo eval_names run_def MAX_IMAGES_TO_DISPLAY_def)

lemma str_nat_small:
  "str_nat (Suc 0) = ''1''"
  "str_nat (Suc (Suc 0)) = ''2''"
  "str_nat (Suc (Suc (Suc 0))) = ''3''"
  "str_nat 50 = ''50''"
  by (simp_all add: str_nat_def digits.simps digit_char_def)

lemmas eval_viewer = load_images_def find_matching_dataset_dirs_def DATASET_FOLDER_NAMES_def
  show_directory_selector_dialog_def on_directory_selected_def start_loading_images_def
  update_images_def update_image_count_def setText_def display_images_def
  load_and_cache_image_def run_def MAX_IMAGES_TO_DISPLAY_def initial_app_def initial_form_def
  str_nat_small put_text_def

text \<open>
  C2, at an input where the code departs from it. The user picks \<open>/data\<close>, whose
  subfolder \<open>Dataset\<close> matches; the dialog offers exactly \<open>Dataset\<close>; the user confirms
  it. The loader thread is started on \<open>SCRIPT_DIR/Dataset\<close>, here \<open>/app/Dataset\<close>, and
  the viewer ends up with the image of that folder, not with the one of \<open>/data/Dataset\<close>,
  which a scan of the chosen subfolder would have delivered.
\<close>

theorem dataset_choice_scans_under_script_dir:
  "effects (fst (load_images demo_env [''Dataset''] ''/data'' initial_app))
     = [Dialog [''Dataset''], ThreadStart ''/app/Dataset'',
        CountLabelText ''Total Images Found: 1'', ImagesEntryText ''1'',
        ImageRead ''/app/Dataset/other.png'']
   \<and> image_paths (fst (load_images demo_env [''Dataset''] ''/data'' initial_app))
     = [''/app/Dataset/other.png'']
   \<and> path_join demo_env ''/data'' ''Dataset'' = ''/data/Dataset''
   \<and> run demo_env ''/data/Dataset'' = Inr ([''/data/Dataset/cat.jpeg''], True)"
  by (simp add: eval_viewer eval_demo eval_names eval_form Let_def)

section \<open>Properties of the theme import\<close>

text \<open>
  C8. For a chosen file: when reading it fails, \<open>import_theme\<close> only prints the error
  and the style sheet stays as it was; when reading succeeds, the text read becomes the
  style sheet of the window, whatever the text is.
\<close>

theorem import_theme_reads_and_applies:
  assumes "file_path \<noteq> []"
  shows "case file_read env file_path of
           Inl e \<Rightarrow> import_theme env file_path s
                      = s\<lparr>effects := effects s @ [Print (''Error importing theme: '' @ e)]\<rparr>
                    \<and> style_sheet (import_theme env file_path s) = style_sheet s
         | Inr custom_css \<Rightarrow> import_theme env file_path s = s\<lparr>style_sheet := custom_css\<rparr>"
  using assms by (simp add: import_theme_def apply_custom_theme_def split: sum.splits)

theorem import_theme_reads_and_applies_witness:
  "style_sheet (import_theme demo_env ''/app/themes/dark.css'' initial_app) = ''QWidget { color: white; }''
   \<and> style_sheet (import_theme demo_env ''/app/themes/none.css''
        (initial_app\<lparr>style_sheet := ''QLabel { color: red; }''\<rparr>)) = ''QLabel { color: red; }''"
  using import_theme_reads_and_applies [of "''/app/themes/dark.css''" demo_env initial_app]
    import_theme_reads_and_applies [of "''/app/themes/none.css''" demo_env
      "initial_app\<lparr>style_sheet := ''QLabel { color: red; }''\<rparr>"]
  by (simp add: demo_env_def)

section \<open>Properties of the image viewer\<close>

subsection \<open>Facts about \<open>load_and_cache_image\<close>\<close>

lemma lc_hit: "image_cache s p = Some px \<Longrightarrow> load_and_cache_image env p s = (px, s)"
  by (simp add: load_and_cache_image_def)

lemma lc_fail:
  "image_cache s p = None \<Longrightarrow> image_read env p = None \<Longrightarrow>
   load_and_cache_image env p s =
     (QPixmap_null,
      s\<lparr>effects := effects s @
          [ImageRead p, Print (''Error loading image '' @ p @ '': Failed to load image'')]\<rparr>)"
  by (simp add: load_and_cache_image_def)

lemma lc_ok:
  "image_cache s p = None \<Longrightarrow> image_read env p = Some img \<Longrightarrow>
   load_and_cache_image env p s =
     (QPixmap_of (image_scaled env img),
      s\<lparr>image_cache := (image_cache s)(p \<mapsto> QPixmap_of (image_scaled env img)),
        effects := effects s @ [ImageRead p]\<rparr>)"
  by (simp add: load_and_cache_image_def Let_def)

lemma lc_cases:
  obtains (hit) px where "image_cache s p = Some px"
  | (fail) "image_cache s p = None" "image_read env p = None"
  | (ok) img where "image_cache s p = None" "image_read env p = Some img"
  by (cases "image_cache s p"; cases "image_read env p") auto

lemma lc_cache_le: "image_cache s \<subseteq>\<^sub>m image_cache (snd (load_and_cache_image env p s))"
  by (cases rule: lc_cases [where s=s and p=p and env=env]) (auto simp: lc_hit lc_fail lc_ok map_le_def)

lemma lc_fields:
  "epoch_calculator (snd (load_and_cache_image env p s)) = epoch_calculator s"
  "image_paths (snd (load_and_cache_image env p s)) = image_paths s"
  "image_count_label (snd (load_and_cache_image env p s)) = image_count_label s"
  "grid_layout (snd (load_and_cache_image env p s)) = grid_layout s"
  "style_sheet (snd (load_and_cache_image env p s)) = style_sheet s"
  by (cases rule: lc_cases [where s=s and p=p and env=env]; simp add: lc_hit lc_fail lc_ok)+

lemma lc_effects:
  "\<exists>new. effects (snd (load_and_cache_image env p s)) = effects s @ new
     \<and> list_all decoding_effect new"
  by (cases rule: lc_cases [where s=s and p=p and env=env]) (auto simp: lc_hit lc_fail lc_ok)

lemma lc_cache_inv:
  assumes "\<And>q px. image_cache s q = Some px \<Longrightarrow> P q px"
    and "\<And>q px. decodes_to env q px \<Longrightarrow> P q px"
    and "image_cache (snd (load_and_cache_image env p s)) q = Some px"
  shows "P q px"
proof (cases rule: lc_cases [where s=s and p=p and env=env])
  case (hit px')
  then show ?thesis using assms by (simp add: lc_hit)
next
  case fail
  then show ?thesis using assms by (simp add: lc_fail)
next
  case (ok img)
  then show ?thesis using assms(1) assms(2) [of p "QPixmap_of (image_scaled env img)"] assms(3)
    by (auto simp: lc_ok decodes_to_def split: if_splits)
qed

lemma renders_iff:
  "renders env s p \<longleftrightarrow>
     (case image_cache s p of Some px \<Rightarrow> px \<noteq> QPixmap_null | None \<Rightarrow> image_read env p \<noteq> None)"
  by (cases rule: lc_cases [where s=s and p=p and env=env]) (auto simp: renders_def lc_hit lc_fail lc_ok)

lemma renders_after_lc:
  "renders env (snd (load_and_cache_image env q s)) p = renders env s p"
  by (cases rule: lc_cases [where s=s and p=q and env=env]) (auto simp: renders_iff lc_hit lc_fail lc_ok)


lemma lc_stays_uncached:
  assumes "image_cache s p = None" and "image_read env p = None"
  shows "image_cache (snd (load_and_cache_image env q s)) p = None"
proof (cases rule: lc_cases [where s=s and p=q and env=env])
  case (hit px)
  then show ?thesis using assms by (simp add: lc_hit)
next
  case fail
  then show ?thesis using assms by (simp add: lc_fail)
next
  case (ok img)
  then have "q \<noteq> p" using assms(2) by auto
  then show ?thesis using ok assms by (simp add: lc_ok)
qed

subsection \<open>Facts about the loop of \<open>display_images\<close>\<close>

lemma dl_Cons:
  "display_loop env (p # ps) row col s =
     (let s1 = snd (load_and_cache_image env p s)
      in if \<not> renders env s p then display_loop env ps row col s1
         else display_loop env ps (if col + 1 \<ge> 5 then row + 1 else row)
                (if col + 1 \<ge> 5 then 0 else col + 1)
                (s1\<lparr>grid_layout := grid_layout s1 @ [(p, row, col)]\<rparr>))"
  by (simp add: renders_def Let_def split: prod.splits)

lemma renders_grid_update [simp]:
  "renders env (s\<lparr>grid_layout := g\<rparr>) p = renders env s p"
  by (simp add: renders_iff)

lemma dl_fields:
  "epoch_calculator (display_loop env ps row col s) = epoch_calculator s
   \<and> image_paths (display_loop env ps row col s) = image_paths s
   \<and> image_count_label (display_loop env ps row col s) = image_count_label s
   \<and> style_sheet (display_loop env ps row col s) = style_sheet s"
proof (induction ps arbitrary: row col s)
  case Nil
  show ?case by simp
next
  case (Cons p ps)
  show ?case
    unfolding dl_Cons Let_def by (simp add: Cons.IH lc_fields)
qed

lemma dl_cache_le: "image_cache s \<subseteq>\<^sub>m image_cache (display_loop env ps row col s)"
proof (induction ps arbitrary: row col s)
  case Nil
  show ?case by simp
next
  case (Cons p ps)
  let ?s1 = "snd (load_and_cache_image env p s)"
  have a: "image_cache s \<subseteq>\<^sub>m image_cache ?s1" by (rule lc_cache_le)
  show ?case
  proof (cases "renders env s p")
    case False
    then show ?thesis
      unfolding dl_Cons Let_def using map_le_trans [OF a Cons.IH [where s="?s1" and row=row and col=col]] by simp
  next
    case True
    let ?s2 = "?s1\<lparr>grid_layout := grid_layout ?s1 @ [(p, row, col)]\<rparr>"
    have b: "image_cache s \<subseteq>\<^sub>m image_cache ?s2" using a by simp
    show ?thesis
      unfolding dl_Cons Let_def using True map_le_trans [OF b Cons.IH [where s="?s2"]] by simp
  qed
qed

lemma dl_cache_inv:
  assumes "\<And>q px. decodes_to env q px \<Longrightarrow> P q px"
  shows "(\<And>q px. image_cache s q = Some px \<Longrightarrow> P q px) \<Longrightarrow>
         image_cache (display_loop env ps row col s) q = Some px \<Longrightarrow> P q px"
proof (induction ps arbitrary: row col s)
  case Nil
  then show ?case by simp
next
  case (Cons p ps)
  let ?s1 = "snd (load_and_cache_image env p s)"
  have inv1: "\<And>q px. image_cache ?s1 q = Some px \<Longrightarrow> P q px"
    using lc_cache_inv [of s P env p] Cons.prems(1) assms by blast
  show ?case
  proof (cases "renders env s p")
    case False
    with Cons.prems(2) have "image_cache (display_loop env ps row col ?s1) q = Some px"
      unfolding dl_Cons Let_def by simp
    then show ?thesis using Cons.IH [where s="?s1" and row=row and col=col] inv1 by blast
  next
    case True
    let ?s2 = "?s1\<lparr>grid_layout := grid_layout ?s1 @ [(p, row, col)]\<rparr>"
    have inv2: "\<And>q px. image_cache ?s2 q = Some px \<Longrightarrow> P q px" using inv1 by simp
    from True Cons.prems(2) obtain r c where
      "image_cache (display_loop env ps r c ?s2) q = Some px"
      unfolding dl_Cons Let_def by simp
    then show ?thesis using Cons.IH [where s="?s2" and row=r and col=c] inv2 by blast
  qed
qed

lemma dl_effects:
  "\<exists>new. effects (display_loop env ps row col s) = effects s @ new \<and> list_all decoding_effect new"
proof (induction ps arbitrary: row col s)
  case Nil
  show ?case by simp
next
  case (Cons p ps)
  let ?s1 = "snd (load_and_cache_image env p s)"
  obtain new1 where n1: "effects ?s1 = effects s @ new1" "list_all decoding_effect new1"
    using lc_effects [of env p s] by blast
  show ?case
  proof (cases "renders env s p")
    case False
    obtain new2 where "effects (display_loop env ps row col ?s1) = effects ?s1 @ new2"
      "list_all decoding_effect new2" using Cons.IH [where s="?s1" and row=row and col=col] by blast
    with n1 False show ?thesis unfolding dl_Cons Let_def by simp
  next
    case True
    let ?s2 = "?s1\<lparr>grid_layout := grid_layout ?s1 @ [(p, row, col)]\<rparr>"
    let ?r = "if col + 1 \<ge> 5 then row + 1 else row" and ?c = "if col + 1 \<ge> 5 then 0 else col + 1"
    obtain new2 where "effects (display_loop env ps ?r ?c ?s2) = effects ?s2 @ new2"
      "list_all decoding_effect new2" using Cons.IH [where s="?s2" and row="?r" and col="?c"] by blast
    with n1 True show ?thesis unfolding dl_Cons Let_def by simp
  qed
qed

lemma dl_grid:
  "\<exists>new. grid_layout (display_loop env ps row col s) = grid_layout s @ new
     \<and> map fst new = filter (renders env s) ps"
proof (induction ps arbitrary: row col s)
  case Nil
  show ?case by simp
next
  case (Cons p ps)
  let ?s1 = "snd (load_and_cache_image env p s)"
  have same: "renders env ?s1 = renders env s" by (rule ext) (rule renders_after_lc)
  show ?case
  proof (cases "renders env s p")
    case False
    obtain new where "grid_layout (display_loop env ps row col ?s1) = grid_layout ?s1 @ new"
      "map fst new = filter (renders env ?s1) ps" using Cons.IH [where s="?s1" and row=row and col=col] by blast
    with False same show ?thesis unfolding dl_Cons Let_def by (simp add: lc_fields)
  next
    case True
    let ?s2 = "?s1\<lparr>grid_layout := grid_layout ?s1 @ [(p, row, col)]\<rparr>"
    let ?r = "if col + 1 \<ge> 5 then row + 1 else row" and ?c = "if col + 1 \<ge> 5 then 0 else col + 1"
    have same2: "renders env ?s2 = renders env s" using same by (simp add: fun_eq_iff)
    obtain new where new: "grid_layout (display_loop env ps ?r ?c ?s2) = grid_layout ?s2 @ new"
      "map fst new = filter (renders env ?s2) ps" using Cons.IH [where s="?s2" and row="?r" and col="?c"] by blast
    have "grid_layout (display_loop env (p # ps) row col s) = grid_layout s @ ((p, row, col) # new)"
      using True new(1) unfolding dl_Cons Let_def by (simp add: lc_fields)
    moreover have "map fst ((p, row, col) # new) = filter (renders env s) (p # ps)"
      using True new(2) same2 by simp
    ultimately show ?thesis by blast
  qed
qed

lemma dl_reattempt:
  assumes "image_read env p = None"
  shows "image_cache s p = None \<Longrightarrow> p \<in> set ps \<Longrightarrow>
    \<exists>new. effects (display_loop env ps row col s) = effects s @ new
      \<and> ImageRead p \<in> set new
      \<and> Print (''Error loading image '' @ p @ '': Failed to load image'') \<in> set new"
proof (induction ps arbitrary: row col s)
  case Nil
  then show ?case by simp
next
  case (Cons q ps)
  let ?s1 = "snd (load_and_cache_image env q s)"
  have unc: "image_cache ?s1 p = None" using lc_stays_uncached [OF Cons.prems(1) assms] .
  show ?case
  proof (cases "q = p")
    case True
    have nr: "\<not> renders env s q" using True Cons.prems(1) assms by (simp add: renders_iff)
    have e1: "effects ?s1 = effects s @
        [ImageRead p, Print (''Error loading image '' @ p @ '': Failed to load image'')]"
      using True Cons.prems(1) assms by (simp add: lc_fail)
    obtain new2 where "effects (display_loop env ps row col ?s1) = effects ?s1 @ new2"
      using dl_effects [of env ps row col ?s1] by blast
    with e1 nr show ?thesis unfolding dl_Cons Let_def by simp
  next
    case False
    with Cons.prems(2) have mem: "p \<in> set ps" by simp
    obtain new1 where n1: "effects ?s1 = effects s @ new1"
      using lc_effects [of env q s] by blast
    show ?thesis
    proof (cases "renders env s q")
      case False
      obtain new2 where "effects (display_loop env ps row col ?s1) = effects ?s1 @ new2"
        "ImageRead p \<in> set new2"
        "Print (''Error loading image '' @ p @ '': Failed to load image'') \<in> set new2"
        using Cons.IH [OF unc mem, where row=row and col=col] by blast
      with n1 False show ?thesis unfolding dl_Cons Let_def by simp
    next
      case True
      let ?s2 = "?s1\<lparr>grid_layout := grid_layout ?s1 @ [(q, row, col)]\<rparr>"
      let ?r = "if col + 1 \<ge> 5 then row + 1 else row" and ?c = "if col + 1 \<ge> 5 then 0 else col + 1"
      have unc2: "image_cache ?s2 p = None" using unc by simp
      obtain new2 where "effects (display_loop env ps ?r ?c ?s2) = effects ?s2 @ new2"
        "ImageRead p \<in> set new2"
        "Print (''Error loading image '' @ p @ '': Failed to load image'') \<in> set new2"
        using Cons.IH [OF unc2 mem, where row="?r" and col="?c"] by blast
      with n1 True show ?thesis unfolding dl_Cons Let_def by simp
    qed
  qed
qed

lemma dl_stays_uncached:
  assumes "image_read env p = None"
  shows "image_cache s p = None \<Longrightarrow> image_cache (display_loop env ps row col s) p = None"
proof (induction ps arbitrary: row col s)
  case Nil
  then show ?case by simp
next
  case (Cons q ps)
  let ?s1 = "snd (load_and_cache_image env q s)"
  have unc: "image_cache ?s1 p = None" using lc_stays_uncached [OF Cons.prems assms] .
  show ?case
    unfolding dl_Cons Let_def using Cons.IH [OF unc] Cons.IH [where s="?s1\<lparr>grid_layout := grid_layout ?s1 @ [(q, row, col)]\<rparr>"] unc
    by simp
qed

subsection \<open>Facts about the slots\<close>

lemma calculate_epochs_fields:
  "calculate_epochs int_of f = Inr g \<Longrightarrow> \<exists>t. g = f\<lparr>result_label := t\<rparr>"
  by (auto simp: calculate_epochs_def split: sum.splits py_error.splits)

lemma update_image_count_entry:
  "images_entry (fst (update_image_count int_of n f)) = str_nat n"
proof (cases "calculate_epochs int_of (put_text Images (str_nat n) f)")
  case (Inl e)
  then show ?thesis
    by (simp add: update_image_count_def setText_def field_text_def put_text_def)
next
  case (Inr g)
  then obtain t where g: "g = (put_text Images (str_nat n) f)\<lparr>result_label := t\<rparr>"
    using calculate_epochs_fields by blast
  show ?thesis
    unfolding update_image_count_def setText_def Inr g
    by (simp add: field_text_def put_text_def)
qed

lemma update_images_unfold2:
  "update_images env paths all_loaded s =
     (let r = update_image_count (py_int env) (length paths) (epoch_calculator s);
          s2 = s\<lparr>image_paths := paths,
                 image_count_label := count_label all_loaded (length paths),
                 epoch_calculator := fst r,
                 effects := effects s @ [CountLabelText (count_label all_loaded (length paths)),
                                         ImagesEntryText (str_nat (length paths))]\<rparr>
      in case snd r of Some e \<Rightarrow> (s2, Some e) | None \<Rightarrow> (display_loop env paths 0 0 s2, None))"
proof (cases "update_image_count (py_int env) (length paths) (epoch_calculator s)")
  case (Pair form raised)
  then show ?thesis
    by (cases raised) (simp_all add: update_images_def Let_def count_label_def display_images_def)
qed

lemma update_images_fields:
  "image_paths (fst (update_images env paths all_loaded s)) = paths
   \<and> image_count_label (fst (update_images env paths all_loaded s))
       = count_label all_loaded (length paths)
   \<and> images_entry (epoch_calculator (fst (update_images env paths all_loaded s)))
       = str_nat (length paths)
   \<and> style_sheet (fst (update_images env paths all_loaded s)) = style_sheet s"
  unfolding update_images_unfold2 Let_def
  by (simp add: dl_fields update_image_count_entry split: option.splits)

lemma update_images_effects:
  "\<exists>new. effects (fst (update_images env paths all_loaded s))
       = effects s @ [CountLabelText (count_label all_loaded (length paths)),
                      ImagesEntryText (str_nat (length paths))] @ new
     \<and> list_all decoding_effect new"
proof (cases "snd (update_image_count (py_int env) (length paths) (epoch_calculator s))")
  case None
  let ?s2 = "s\<lparr>image_paths := paths,
      image_count_label := count_label all_loaded (length paths),
      epoch_calculator := fst (update_image_count (py_int env) (length paths) (epoch_calculator s)),
      effects := effects s @ [CountLabelText (count_label all_loaded (length paths)),
                              ImagesEntryText (str_nat (length paths))]\<rparr>"
  obtain new where "effects (display_loop env paths 0 0 ?s2) = effects ?s2 @ new"
    "list_all decoding_effect new"
    using dl_effects [of env paths 0 0 ?s2] by blast
  with None show ?thesis
    unfolding update_images_unfold2 Let_def by simp
next
  case (Some e)
  then show ?thesis
    unfolding update_images_unfold2 Let_def by simp
qed

lemma update_images_grid:
  "\<exists>new. grid_layout (fst (update_images env paths all_loaded s)) = grid_layout s @ new
     \<and> length new \<le> length paths"
proof (cases "snd (update_image_count (py_int env) (length paths) (epoch_calculator s))")
  case None
  let ?s2 = "s\<lparr>image_paths := paths,
      image_count_label := count_label all_loaded (length paths),
      epoch_calculator := fst (update_image_count (py_int env) (length paths) (epoch_calculator s)),
      effects := effects s @ [CountLabelText (count_label all_loaded (length paths)),
                              ImagesEntryText (str_nat (length paths))]\<rparr>"
  obtain new where new: "grid_layout (display_loop env paths 0 0 ?s2) = grid_layout ?s2 @ new"
    "map fst new = filter (renders env ?s2) paths"
    using dl_grid [of env paths 0 0 ?s2] by blast
  have "length new = length (filter (renders env ?s2) paths)"
    using new(2) by (metis length_map)
  then have "length new \<le> length paths" by simp
  with new(1) None show ?thesis
    unfolding update_images_unfold2 Let_def by simp
next
  case (Some e)
  then show ?thesis
    unfolding update_images_unfold2 Let_def by simp
qed

lemma update_images_cache_le:
  "image_cache s \<subseteq>\<^sub>m image_cache (fst (update_images env paths all_loaded s))"
proof (cases "snd (update_image_count (py_int env) (length paths) (epoch_calculator s))")
  case None
  let ?s2 = "s\<lparr>image_paths := paths,
      image_count_label := count_label all_loaded (length paths),
      epoch_calculator := fst (update_image_count (py_int env) (length paths) (epoch_calculator s)),
      effects := effects s @ [CountLabelText (count_label all_loaded (length paths)),
                              ImagesEntryText (str_nat (length paths))]\<rparr>"
  have "image_cache ?s2 \<subseteq>\<^sub>m image_cache (display_loop env paths 0 0 ?s2)" by (rule dl_cache_le)
  with None show ?thesis unfolding update_images_unfold2 Let_def by simp
next
  case (Some e)
  then show ?thesis unfolding update_images_unfold2 Let_def by simp
qed

lemma update_images_cache_inv:
  assumes "\<And>q px. decodes_to env q px \<Longrightarrow> P q px"
    and "\<And>q px. image_cache s q = Some px \<Longrightarrow> P q px"
    and "image_cache (fst (update_images env paths all_loaded s)) q = Some px"
  shows "P q px"
proof (cases "snd (update_image_count (py_int env) (length paths) (epoch_calculator s))")
  case None
  let ?s2 = "s\<lparr>image_paths := paths,
      image_count_label := count_label all_loaded (length paths),
      epoch_calculator := fst (update_image_count (py_int env) (length paths) (epoch_calculator s)),
      effects := effects s @ [CountLabelText (count_label all_loaded (length paths)),
                              ImagesEntryText (str_nat (length paths))]\<rparr>"
  from None assms(3) have "image_cache (display_loop env paths 0 0 ?s2) q = Some px"
    unfolding update_images_unfold2 Let_def by simp
  then show ?thesis using dl_cache_inv [of env P ?s2 paths 0 0 q px] assms(1,2) by simp
next
  case (Some e)
  with assms(3) show ?thesis
    unfolding update_images_unfold2 Let_def using assms(2) by simp
qed


lemma start_loading_images_cache_le:
  "image_cache s \<subseteq>\<^sub>m image_cache (fst (start_loading_images env directory s))"
proof (cases "run env directory")
  case (Inl e)
  then show ?thesis by (simp add: start_loading_images_def)
next
  case (Inr emitted)
  obtain paths all_loaded where "emitted = (paths, all_loaded)" by (cases emitted)
  with Inr show ?thesis
    using update_images_cache_le
      [of "s\<lparr>image_paths := [], grid_layout := [], effects := effects s @ [ThreadStart directory]\<rparr>"
        env paths all_loaded]
    by (simp add: start_loading_images_def)
qed

lemma start_loading_images_cache_inv:
  assumes "\<And>q px. decodes_to env q px \<Longrightarrow> P q px"
    and "\<And>q px. image_cache s q = Some px \<Longrightarrow> P q px"
    and "image_cache (fst (start_loading_images env directory s)) q = Some px"
  shows "P q px"
proof (cases "run env directory")
  case (Inl e)
  with assms(2,3) show ?thesis by (simp add: start_loading_images_def)
next
  case (Inr emitted)
  obtain paths all_loaded where "emitted = (paths, all_loaded)" by (cases emitted)
  with Inr assms(3) have
    "image_cache (fst (update_images env paths all_loaded
        (s\<lparr>image_paths := [], grid_layout := [], effects := effects s @ [ThreadStart directory]\<rparr>))) q
      = Some px"
    by (simp add: start_loading_images_def)
  then show ?thesis
    using update_images_cache_inv
      [of env P "s\<lparr>image_paths := [], grid_layout := [], effects := effects s @ [ThreadStart directory]\<rparr>"
        paths all_loaded q px] assms(1,2)
    by simp
qed

lemma ok_loop_Cons:
  "ok_loop env (c # clicks) s =
     (let r = start_loading_images env (path_join env (script_dir env) c) s
      in case snd r of None \<Rightarrow> ok_loop env clicks (fst r) | Some e \<Rightarrow> (fst r, Some e))"
  by (cases "start_loading_images env (path_join env (script_dir env) c) s")
    (simp add: on_directory_selected_def Let_def split: option.splits)

lemma ok_loop_cache_le:
  "image_cache s \<subseteq>\<^sub>m image_cache (fst (ok_loop env clicks s))"
proof (induction clicks arbitrary: s)
  case Nil
  show ?case by simp
next
  case (Cons c clicks)
  let ?r = "start_loading_images env (path_join env (script_dir env) c) s"
  have a: "image_cache s \<subseteq>\<^sub>m image_cache (fst ?r)" by (rule start_loading_images_cache_le)
  show ?case
  proof (cases "snd ?r")
    case None
    then have "ok_loop env (c # clicks) s = ok_loop env clicks (fst ?r)"
      by (subst ok_loop_Cons) (simp add: Let_def)
    then show ?thesis using map_le_trans [OF a Cons.IH [of "fst ?r"]] by simp
  next
    case (Some e)
    then have "ok_loop env (c # clicks) s = (fst ?r, Some e)"
      by (subst ok_loop_Cons) (simp add: Let_def)
    then show ?thesis using a by simp
  qed
qed

lemma ok_loop_cache_inv:
  assumes "\<And>q px. decodes_to env q px \<Longrightarrow> P q px"
  shows "(\<And>q px. image_cache s q = Some px \<Longrightarrow> P q px) \<Longrightarrow>
         image_cache (fst (ok_loop env clicks s)) q = Some px \<Longrightarrow> P q px"
proof (induction clicks arbitrary: s)
  case Nil
  then show ?case by simp
next
  case (Cons c clicks)
  let ?r = "start_loading_images env (path_join env (script_dir env) c) s"
  have inv1: "\<And>q px. image_cache (fst ?r) q = Some px \<Longrightarrow> P q px"
    using start_loading_images_cache_inv [of env P s] assms Cons.prems(1) by blast
  show ?case
  proof (cases "snd ?r")
    case None
    then have "ok_loop env (c # clicks) s = ok_loop env clicks (fst ?r)"
      by (subst ok_loop_Cons) (simp add: Let_def)
    with Cons.prems(2) have "image_cache (fst (ok_loop env clicks (fst ?r))) q = Some px" by simp
    then show ?thesis using Cons.IH [of "fst ?r"] inv1 by blast
  next
    case (Some e)
    then have "ok_loop env (c # clicks) s = (fst ?r, Some e)"
      by (subst ok_loop_Cons) (simp add: Let_def)
    with Cons.prems(2) show ?thesis using inv1 by simp
  qed
qed

lemma browse_directory_cache_le:
  "image_cache s \<subseteq>\<^sub>m image_cache (fst (browse_directory env folder_path ok_clicks s))"
  using ok_loop_cache_le [of "s\<lparr>effects := effects s @ [Dialog ds]\<rparr>" env ok_clicks for ds]
    start_loading_images_cache_le [of s env folder_path]
  by (simp add: browse_directory_def load_images_def show_directory_selector_dialog_def
      split: sum.splits)

lemma browse_directory_cache_inv:
  assumes "\<And>q px. decodes_to env q px \<Longrightarrow> P q px"
    and "\<And>q px. image_cache s q = Some px \<Longrightarrow> P q px"
    and "image_cache (fst (browse_directory env folder_path ok_clicks s)) q = Some px"
  shows "P q px"
proof -
  have a: "\<And>ds. image_cache (fst (ok_loop env ok_clicks (s\<lparr>effects := effects s @ [Dialog ds]\<rparr>))) q
      = Some px \<Longrightarrow> P q px"
    using ok_loop_cache_inv [of env P "s\<lparr>effects := effects s @ [Dialog ds]\<rparr>" ok_clicks q px for ds]
      assms(1,2) by simp
  have b: "image_cache (fst (start_loading_images env folder_path s)) q = Some px \<Longrightarrow> P q px"
    using start_loading_images_cache_inv [of env P s folder_path q px] assms(1,2) by blast
  show ?thesis
    using assms(2,3) a b
    by (auto simp: browse_directory_def load_images_def show_directory_selector_dialog_def
        split: sum.splits if_splits)
qed

lemma perform_cache_le: "image_cache s \<subseteq>\<^sub>m image_cache (perform env a s)"
  by (cases a)
    (simp_all add: perform_def browse_directory_cache_le import_theme_def apply_custom_theme_def
      view_full_image_def split: sum.splits)

lemma perform_cache_inv:
  assumes "\<And>q px. decodes_to env q px \<Longrightarrow> P q px"
    and "\<And>q px. image_cache s q = Some px \<Longrightarrow> P q px"
    and "image_cache (perform env a s) q = Some px"
  shows "P q px"
proof (cases a)
  case (SelectDirectory folder_path ok_clicks)
  with assms(3) show ?thesis
    using browse_directory_cache_inv [of env P s folder_path ok_clicks q px] assms(1,2)
    by (simp add: perform_def)
next
  case (ImportTheme file_path)
  with assms(2,3) show ?thesis
    by (auto simp: perform_def import_theme_def apply_custom_theme_def split: sum.splits if_splits)
next
  case (TypeText fld t)
  with assms(2,3) show ?thesis by (simp add: perform_def)
next
  case (ClickThumbnail img_path)
  with assms(2,3) show ?thesis by (simp add: perform_def view_full_image_def)
qed

lemma perform_all_cache_le: "image_cache s \<subseteq>\<^sub>m image_cache (perform_all steps s)"
proof (induction steps arbitrary: s)
  case Nil
  show ?case by simp
next
  case (Cons step steps)
  obtain env a where "step = (env, a)" by (cases step)
  then show ?case
    using map_le_trans [OF perform_cache_le [of s env a] Cons.IH [of "perform env a s"]] by simp
qed

lemma perform_all_cache_inv:
  "(\<And>q px. image_cache s q = Some px \<Longrightarrow> \<exists>env \<in> E. decodes_to env q px) \<Longrightarrow>
   fst ` set steps \<subseteq> E \<Longrightarrow>
   image_cache (perform_all steps s) q = Some px \<Longrightarrow> \<exists>env \<in> E. decodes_to env q px"
proof (induction steps arbitrary: s)
  case Nil
  then show ?case by simp
next
  case (Cons step steps)
  obtain env a where step: "step = (env, a)" by (cases step)
  with Cons.prems(2) have env: "env \<in> E" and rest: "fst ` set steps \<subseteq> E" by auto
  have inv1: "\<And>q px. image_cache (perform env a s) q = Some px \<Longrightarrow> \<exists>env \<in> E. decodes_to env q px"
    using perform_cache_inv [of env "\<lambda>q px. \<exists>env \<in> E. decodes_to env q px" s a]
      Cons.prems(1) env by blast
  from Cons.prems(3) step have "image_cache (perform_all steps (perform env a s)) q = Some px"
    by simp
  then show ?case using Cons.IH [OF inv1 rest] by blast
qed

subsection \<open>The thumbnail cache\<close>

text \<open>
  C6. Take a path that is not cached and that decodes. The first request decodes it and
  returns the scaled pixmap. A second request, in any world (the file may have changed or
  become unreadable), returns that same pixmap and leaves the state as it is, so no second
  \<open>QImageReader\<close> read takes place. Whatever the user does afterwards (choosing
  directories, importing themes, typing, clicking thumbnails), in whatever worlds, the
  cache only grows: the entry is still there with the same pixmap, and a request still
  returns it without decoding.
\<close>

theorem cached_thumbnail_is_not_decoded_again:
  assumes "image_cache s p = None" and "image_read env p = Some img"
  shows "let first = load_and_cache_image env p s;
             later = perform_all steps (snd first)
         in fst first = QPixmap_of (image_scaled env img)
            \<and> load_and_cache_image env' p (snd first) = (fst first, snd first)
            \<and> image_cache (snd first) \<subseteq>\<^sub>m image_cache later
            \<and> image_cache later p = Some (fst first)
            \<and> load_and_cache_image env' p later = (fst first, later)"
proof -
  let ?px = "QPixmap_of (image_scaled env img)"
  let ?s1 = "snd (load_and_cache_image env p s)"
  have first: "load_and_cache_image env p s
      = (?px, s\<lparr>image_cache := (image_cache s)(p \<mapsto> ?px), effects := effects s @ [ImageRead p]\<rparr>)"
    using assms by (rule lc_ok)
  then have c1: "image_cache ?s1 p = Some ?px" by simp
  have le: "image_cache ?s1 \<subseteq>\<^sub>m image_cache (perform_all steps ?s1)"
    by (rule perform_all_cache_le)
  with c1 have c2: "image_cache (perform_all steps ?s1) p = Some ?px"
    by (metis domI map_le_def)
  show ?thesis
    unfolding Let_def using first le c2 lc_hit [OF c1, of env'] lc_hit [OF c2, of env'] by simp
qed

theorem cached_thumbnail_is_not_decoded_again_witness:
  "let first = load_and_cache_image demo_env ''/pics/a.png'' initial_app;
       later = perform_all [(corrupted_env, ImportTheme ''/app/themes/dark.css''),
                            (corrupted_env, TypeText Repeats ''10'')] (snd first)
   in fst first = QPixmap_of 1
      \<and> effects (snd first) = [ImageRead ''/pics/a.png'']
      \<and> image_read corrupted_env ''/pics/a.png'' = None
      \<and> load_and_cache_image corrupted_env ''/pics/a.png'' (snd first) = (QPixmap_of 1, snd first)
      \<and> image_cache later ''/pics/a.png'' = Some (QPixmap_of 1)
      \<and> load_and_cache_image corrupted_env ''/pics/a.png'' later = (QPixmap_of 1, later)"
  using cached_thumbnail_is_not_decoded_again [of initial_app "''/pics/a.png''" demo_env 1
      "[(corrupted_env, ImportTheme ''/app/themes/dark.css''), (corrupted_env, TypeText Repeats ''10'')]"
      corrupted_env]
  by (simp add: Let_def initial_app_def eval_demo corrupted_env_def load_and_cache_image_def)

lemma display_images_reattempt:
  assumes "image_read env p = None" and "image_cache s p = None" and "p \<in> set (image_paths s)"
  shows "length (filter ((=) (ImageRead p)) (effects (display_images env s)))
           \<ge> Suc (length (filter ((=) (ImageRead p)) (effects s)))
         \<and> image_cache (display_images env s) p = None
         \<and> image_paths (display_images env s) = image_paths s"
proof -
  obtain new where new: "effects (display_images env s) = effects s @ new" "ImageRead p \<in> set new"
    unfolding display_images_def
    using dl_reattempt [OF assms(1,2,3), of 0 0] by blast
  have "filter ((=) (ImageRead p)) new \<noteq> []"
    using new(2) by (simp add: filter_empty_conv)
  then have "1 \<le> length (filter ((=) (ImageRead p)) new)"
    by (cases "filter ((=) (ImageRead p)) new") simp_all
  with new(1) show ?thesis
    unfolding display_images_def
    using dl_stays_uncached [OF assms(1,2)] dl_fields [of env "image_paths s" 0 0 s]
    by (simp add: display_images_def)
qed

lemma render_passes_reattempt:
  "\<forall>env \<in> set envs. image_read env p = None \<Longrightarrow> image_cache s p = None \<Longrightarrow>
   p \<in> set (image_paths s) \<Longrightarrow>
   length (filter ((=) (ImageRead p)) (effects (render_passes envs s)))
     \<ge> length (filter ((=) (ImageRead p)) (effects s)) + length envs
   \<and> image_cache (render_passes envs s) p = None"
proof (induction envs arbitrary: s)
  case Nil
  then show ?case by simp
next
  case (Cons env envs)
  have fail: "image_read env p = None" and rest: "\<forall>env \<in> set envs. image_read env p = None"
    using Cons.prems(1) by simp_all
  note one = display_images_reattempt [OF fail Cons.prems(2,3)]
  have "p \<in> set (image_paths (display_images env s))" using one Cons.prems(3) by simp
  from Cons.IH [OF rest _ this] one show ?case by fastforce
qed

lemma decodes_to_not_null: "decodes_to w q px \<Longrightarrow> px \<noteq> QPixmap_null"
  by (auto simp: decodes_to_def split: option.splits)

text \<open>
  C9. Take a path that is not cached and whose decode fails. The request reads the file,
  prints the error and returns the null pixmap, and the cache is left exactly as it was.
  If the path is in the viewer's list, then over any number of further rendering passes
  in worlds where it still fails, each pass reads the file again (at least one read per
  pass) and the path stays out of the cache. And in every state that user actions reach
  from the start of the program, each cache entry holds a pixmap that is not null and that
  one of the worlds passed through decoded for that path.
\<close>

theorem failed_decode_is_not_cached:
  assumes "image_cache s p = None" and "image_read env p = None"
  shows "load_and_cache_image env p s
           = (QPixmap_null,
              s\<lparr>effects := effects s @
                 [ImageRead p, Print (''Error loading image '' @ p @ '': Failed to load image'')]\<rparr>)
         \<and> image_cache (snd (load_and_cache_image env p s)) = image_cache s
         \<and> (p \<in> set (image_paths s) \<and> (\<forall>w \<in> set worlds. image_read w p = None) \<longrightarrow>
              length (filter ((=) (ImageRead p)) (effects (render_passes worlds s)))
                \<ge> length (filter ((=) (ImageRead p)) (effects s)) + length worlds
              \<and> image_cache (render_passes worlds s) p = None)
         \<and> (\<forall>q px. image_cache (perform_all steps initial_app) q = Some px \<longrightarrow>
              px \<noteq> QPixmap_null \<and> (\<exists>w \<in> fst ` set steps. decodes_to w q px))"
proof -
  have a: "load_and_cache_image env p s
           = (QPixmap_null,
              s\<lparr>effects := effects s @
                 [ImageRead p, Print (''Error loading image '' @ p @ '': Failed to load image'')]\<rparr>)"
    using assms by (rule lc_fail)
  have b: "p \<in> set (image_paths s) \<and> (\<forall>w \<in> set worlds. image_read w p = None) \<longrightarrow>
              length (filter ((=) (ImageRead p)) (effects (render_passes worlds s)))
                \<ge> length (filter ((=) (ImageRead p)) (effects s)) + length worlds
              \<and> image_cache (render_passes worlds s) p = None"
    using render_passes_reattempt [of worlds p s] assms(1) by blast
  have c: "\<exists>w \<in> fst ` set steps. decodes_to w q px"
    if "image_cache (perform_all steps initial_app) q = Some px" for q px
    using perform_all_cache_inv [of initial_app "fst ` set steps" steps q px] that
    by (simp add: initial_app_def)
  have a2: "image_cache (snd (load_and_cache_image env p s)) = image_cache s"
    using a by simp
  have e: "\<forall>q px. image_cache (perform_all steps initial_app) q = Some px \<longrightarrow>
              px \<noteq> QPixmap_null \<and> (\<exists>w \<in> fst ` set steps. decodes_to w q px)"
    using c decodes_to_not_null by blast
  from a a2 b e show ?thesis by (intro conjI)
qed


lemma scan_pics:
  "image_cache (perform_all [(demo_env, SelectDirectory ''/pics'' [])] initial_app) ''/pics/a.png''
     = Some (QPixmap_of 1)
   \<and> image_cache (perform_all [(demo_env, SelectDirectory ''/pics'' [])] initial_app) ''/pics/broken.bmp''
     = None
   \<and> map fst (grid_layout (perform_all [(demo_env, SelectDirectory ''/pics'' [])] initial_app))
     = [''/pics/a.png'', ''/pics/b.JPG'']"
  by (simp add: perform_def browse_directory_def eval_viewer eval_demo eval_names eval_form Let_def)

theorem failed_decode_is_not_cached_witness:
  "load_and_cache_image demo_env ''/pics/broken.bmp''
       (initial_app\<lparr>image_paths := [''/pics/a.png'', ''/pics/broken.bmp'']\<rparr>)
     = (QPixmap_null,
        initial_app\<lparr>image_paths := [''/pics/a.png'', ''/pics/broken.bmp''],
          effects := [ImageRead ''/pics/broken.bmp'',
                      Print ''Error loading image /pics/broken.bmp: Failed to load image'']\<rparr>)
   \<and> 2 \<le> length (filter ((=) (ImageRead ''/pics/broken.bmp''))
          (effects (render_passes [demo_env, demo_env]
             (initial_app\<lparr>image_paths := [''/pics/a.png'', ''/pics/broken.bmp'']\<rparr>))))
   \<and> image_cache (render_passes [demo_env, demo_env]
          (initial_app\<lparr>image_paths := [''/pics/a.png'', ''/pics/broken.bmp'']\<rparr>)) ''/pics/broken.bmp''
       = None
   \<and> image_cache (perform_all [(demo_env, SelectDirectory ''/pics'' [])] initial_app) ''/pics/a.png''
       = Some (QPixmap_of 1)
   \<and> decodes_to demo_env ''/pics/a.png'' (QPixmap_of 1)"
  using failed_decode_is_not_cached
    [of "initial_app\<lparr>image_paths := [''/pics/a.png'', ''/pics/broken.bmp'']\<rparr>"
        "''/pics/broken.bmp''" demo_env "[demo_env, demo_env]"
        "[(demo_env, SelectDirectory ''/pics'' [])]"]
    scan_pics
  by (simp add: initial_app_def eval_demo decodes_to_def)

subsection \<open>The count of a completed scan\<close>

lemma run_cut_length:
  "run env directory = Inr (paths, False) \<Longrightarrow> length paths = MAX_IMAGES_TO_DISPLAY"
  by (auto simp: run_def Let_def split: sum.splits if_splits)

text \<open>
  C10. When the loader thread has delivered a path list, the viewer holds that list, the
  status label shows its length (as the total found, or, when the list was cut, as the
  number displayed), and the images entry of the epoch form holds its length. Label and
  entry are set right after the thread start and before every effect of decoding, so
  they do not depend on what decodes; the grid may hold fewer widgets than the count.
\<close>

theorem scan_count_is_length_of_delivered_list:
  assumes "run env directory = Inr (paths, all_loaded)"
  shows "let s' = fst (start_loading_images env directory s); n = str_nat (length paths)
         in image_paths s' = paths
            \<and> image_count_label s'
                = (if all_loaded then ''Total Images Found: '' @ n
                   else ''Too many images. Displaying '' @ n @ '' images.'')
            \<and> images_entry (epoch_calculator s') = n
            \<and> (\<exists>decoding. effects s'
                   = effects s @ [ThreadStart directory, CountLabelText (image_count_label s'),
                                  ImagesEntryText n] @ decoding
                 \<and> list_all decoding_effect decoding)
            \<and> length (grid_layout s') \<le> length paths"
proof -
  let ?s1 = "s\<lparr>image_paths := [], grid_layout := [], effects := effects s @ [ThreadStart directory]\<rparr>"
  let ?s' = "fst (update_images env paths all_loaded ?s1)"
  have s': "fst (start_loading_images env directory s) = ?s'"
    using assms by (simp add: start_loading_images_def)
  have label: "count_label all_loaded (length paths)
      = (if all_loaded then ''Total Images Found: '' @ str_nat (length paths)
         else ''Too many images. Displaying '' @ str_nat (length paths) @ '' images.'')"
  proof (cases all_loaded)
    case True
    then show ?thesis by (simp add: count_label_def)
  next
    case False
    with assms have "run env directory = Inr (paths, False)" by simp
    then have "length paths = MAX_IMAGES_TO_DISPLAY" by (rule run_cut_length)
    with False show ?thesis by (simp add: count_label_def)
  qed
  note f = update_images_fields [of env paths all_loaded ?s1]
  obtain decoding where d: "effects ?s'
      = effects ?s1 @ [CountLabelText (count_label all_loaded (length paths)),
                       ImagesEntryText (str_nat (length paths))] @ decoding"
    "list_all decoding_effect decoding"
    using update_images_effects [of env paths all_loaded ?s1] by blast
  obtain new where g: "grid_layout ?s' = grid_layout ?s1 @ new" "length new \<le> length paths"
    using update_images_grid [of env paths all_loaded ?s1] by blast
  have e: "effects ?s' = effects s @ [ThreadStart directory, CountLabelText (image_count_label ?s'),
                                  ImagesEntryText (str_nat (length paths))] @ decoding"
    using d(1) f by simp
  have "length (grid_layout ?s') \<le> length paths" using g by simp
  with f label e d(2) show ?thesis unfolding Let_def s' by auto
qed

theorem scan_count_is_length_of_delivered_list_witness:
  "image_count_label (fst (start_loading_images demo_env ''/pics'' initial_app)) = ''Total Images Found: 3''
   \<and> images_entry (epoch_calculator (fst (start_loading_images demo_env ''/pics'' initial_app))) = ''3''
   \<and> effects (fst (start_loading_images demo_env ''/pics'' initial_app))
       = [ThreadStart ''/pics'', CountLabelText ''Total Images Found: 3'', ImagesEntryText ''3'',
          ImageRead ''/pics/a.png'', ImageRead ''/pics/broken.bmp'',
          Print ''Error loading image /pics/broken.bmp: Failed to load image'',
          ImageRead ''/pics/b.JPG'']
   \<and> grid_layout (fst (start_loading_images demo_env ''/pics'' initial_app))
       = [(''/pics/a.png'', 0, 0), (''/pics/b.JPG'', 0, 1)]"
  using scan_count_is_length_of_delivered_list
    [of demo_env "''/pics''" "[''/pics/a.png'', ''/pics/broken.bmp'', ''/pics/b.JPG'']" True initial_app]
  by (simp add: eval_viewer eval_demo eval_names eval_form Let_def)

subsection \<open>A rendering pass with an image that does not decode\<close>

text \<open>
  C7, as stated, fails when the image that no longer decodes is already in the cache.
  \<open>/pics\<close> is scanned once while \<open>a.png\<close> decodes, which caches it; then \<open>a.png\<close> is
  overwritten and \<open>/pics\<close> is scanned again. In the second pass \<open>a.png\<close> is the one
  image of three that does not decode, the other two decode, and the grid holds three
  widgets, as many as there are paths: the cached pixmap is shown.
\<close>

theorem stale_cache_renders_undecodable_image_counterexample:
  "let s1 = fst (start_loading_images demo_env ''/pics'' initial_app);
       s2 = fst (start_loading_images corrupted_env ''/pics'' s1)
   in image_paths s2 = [''/pics/a.png'', ''/pics/broken.bmp'', ''/pics/b.JPG'']
      \<and> image_read corrupted_env ''/pics/a.png'' = None
      \<and> image_read corrupted_env ''/pics/broken.bmp'' = Some 5
      \<and> image_read corrupted_env ''/pics/b.JPG'' = Some 2
      \<and> map fst (grid_layout s2) = [''/pics/a.png'', ''/pics/broken.bmp'', ''/pics/b.JPG'']
      \<and> length (grid_layout s2) = length (image_paths s2)"
  by (simp add: eval_viewer eval_demo eval_names eval_form Let_def corrupted_env_def)

text \<open>
  C7, amended. Take a rendering pass over a path list in which one path does not decode
  and is not in the cache, and all the others decode (and no null pixmap is cached, which
  holds in every reachable state). The pass adds one widget for each of the other paths,
  in order, and none for the failing one: one fewer than the path count. Its effects are
  reads and prints only, among them the error message for the failing path; the pass is a
  total function of the state, so nothing is raised.
\<close>

theorem one_undecodable_image_is_skipped:
  assumes "image_paths s = before @ [p] @ after"
    and "\<forall>q \<in> set (before @ after). image_read env q \<noteq> None"
    and "image_read env p = None"
    and "image_cache s p = None"
    and "\<forall>q px. image_cache s q = Some px \<longrightarrow> px \<noteq> QPixmap_null"
  shows "\<exists>new log. grid_layout (display_images env s) = grid_layout s @ new
            \<and> map fst new = before @ after
            \<and> length new = length (image_paths s) - 1
            \<and> effects (display_images env s) = effects s @ log
            \<and> list_all decoding_effect log
            \<and> Print (''Error loading image '' @ p @ '': Failed to load image'') \<in> set log"
proof -
  have r: "renders env s q" if "q \<in> set (before @ after)" for q
    using that assms(2,5) by (auto simp: renders_iff split: option.splits)
  have nr: "\<not> renders env s p" using assms(3,4) by (simp add: renders_iff)
  have fb: "filter (renders env s) before = before" and fa: "filter (renders env s) after = after"
    using r by (simp_all add: filter_id_conv)
  have filt: "filter (renders env s) (image_paths s) = before @ after"
    using assms(1) nr fb fa by simp
  obtain new where new: "grid_layout (display_images env s) = grid_layout s @ new"
    "map fst new = filter (renders env s) (image_paths s)"
    unfolding display_images_def using dl_grid [of env "image_paths s" 0 0 s] by blast
  have "length new = length (before @ after)" using new(2) filt by (metis length_map)
  then have len: "length new = length (image_paths s) - 1" using assms(1) by simp
  have mem: "p \<in> set (image_paths s)" using assms(1) by simp
  obtain log where log: "effects (display_images env s) = effects s @ log"
    "list_all decoding_effect log"
    unfolding display_images_def using dl_effects [of env "image_paths s" 0 0 s] by blast
  obtain log' where log': "effects (display_images env s) = effects s @ log'"
    "Print (''Error loading image '' @ p @ '': Failed to load image'') \<in> set log'"
    unfolding display_images_def
    using dl_reattempt [OF assms(3,4) mem, of 0 0] by blast
  from log(1) log'(1) have "log' = log" by simp
  with new filt len log log'(2) show ?thesis by auto
qed


theorem one_undecodable_image_is_skipped_witness:
  "grid_layout (display_images demo_env
       (initial_app\<lparr>image_paths := [''/pics/a.png'', ''/pics/broken.bmp'', ''/pics/b.JPG'']\<rparr>))
     = [(''/pics/a.png'', 0, 0), (''/pics/b.JPG'', 0, 1)]
   \<and> effects (display_images demo_env
       (initial_app\<lparr>image_paths := [''/pics/a.png'', ''/pics/broken.bmp'', ''/pics/b.JPG'']\<rparr>))
     = [ImageRead ''/pics/a.png'', ImageRead ''/pics/broken.bmp'',
        Print ''Error loading image /pics/broken.bmp: Failed to load image'',
        ImageRead ''/pics/b.JPG'']"
  using one_undecodable_image_is_skipped
    [of "initial_app\<lparr>image_paths := [''/pics/a.png'', ''/pics/broken.bmp'', ''/pics/b.JPG'']\<rparr>"
        "[''/pics/a.png'']" "''/pics/broken.bmp''" "[''/pics/b.JPG'']" demo_env]
  by (simp add: eval_viewer eval_demo Let_def)

section \<open>Properties of true division and of the format\<close>

lemma bit_length_nonneg: "0 \<le> bit_length n"
proof (induction n rule: bit_length.induct)
  case (1 n)
  show ?case
  proof (cases "n \<le> 0")
    case True
    then show ?thesis by (subst bit_length.simps) simp
  next
    case False
    with "1.IH" show ?thesis by (subst bit_length.simps) simp
  qed
qed

lemma bit_length_pos: "0 < n \<Longrightarrow> 1 \<le> bit_length n"
  using bit_length_nonneg [of "n div 2"] by (subst bit_length.simps) simp

lemma halves: "a \<le> n div 2 \<Longrightarrow> n div 2 < b \<Longrightarrow> 2 * a \<le> n \<and> n < 2 * (b::int)"
  by presburger

lemma bit_length_bounds:
  "0 < n \<Longrightarrow> 2 ^ nat (bit_length n - 1) \<le> n \<and> n < 2 ^ nat (bit_length n)"
proof (induction n rule: bit_length.induct)
  case (1 n)
  show ?case
  proof (cases "n = 1")
    case True
    have "bit_length 1 = 1"
      by (subst bit_length.simps, simp, subst bit_length.simps, simp)
    with True show ?thesis by simp
  next
    case False
    with "1.prems" have h: "0 < n div 2" by simp
    have pos: "\<not> n \<le> 0" using "1.prems" by simp
    from "1.IH" [OF pos h] have lo: "2 ^ nat (bit_length (n div 2) - 1) \<le> n div 2"
      and hi: "n div 2 < 2 ^ nat (bit_length (n div 2))" by simp_all
    have bl: "bit_length n = 1 + bit_length (n div 2)" using pos by (subst bit_length.simps) simp
    have ge1: "1 \<le> bit_length (n div 2)" using h by (rule bit_length_pos)
    have e1: "nat (bit_length n - 1) = Suc (nat (bit_length (n div 2) - 1))"
      using bl ge1 by simp
    have e2: "nat (bit_length n) = Suc (nat (bit_length (n div 2)))"
      using bl ge1 by simp
    show ?thesis unfolding e1 e2 using halves [OF lo hi] by simp
  qed
qed

lemma bit_length_rat:
  assumes "0 < n"
  shows "(2::rat) powi (bit_length n - 1) \<le> of_int n" and "of_int n < (2::rat) powi (bit_length n)"
proof -
  from bit_length_bounds [OF assms] have lo: "2 ^ nat (bit_length n - 1) \<le> n"
    and hi: "n < 2 ^ nat (bit_length n)" by simp_all
  have ge: "1 \<le> bit_length n" using assms by (rule bit_length_pos)
  have "(of_int (2 ^ nat (bit_length n - 1)) :: rat) \<le> of_int n" using lo by (simp only: of_int_le_iff)
  then show "(2::rat) powi (bit_length n - 1) \<le> of_int n" using ge by (simp add: power_int_def)
  have "(of_int n :: rat) < of_int (2 ^ nat (bit_length n))" using hi by (simp only: of_int_less_iff)
  then show "of_int n < (2::rat) powi (bit_length n)" using ge by (simp add: power_int_def)
qed

lemma round_half_even_bounds:
  assumes "0 < d" and "0 \<le> n"
  shows "\<bar>2 * (round_half_even n d * d) - 2 * n\<bar> \<le> d" and "0 \<le> round_half_even n d"
    and "n div d \<le> round_half_even n d" and "round_half_even n d \<le> n div d + 1"
proof -
  define Q R where "Q = n div d" and "R = n mod d"
  have n: "n = Q * d + R" by (simp add: Q_def R_def)
  have r: "0 \<le> R" "R < d" using assms(1) by (simp_all add: R_def)
  have q: "0 \<le> Q" using assms by (simp add: Q_def pos_imp_zdiv_nonneg_iff)
  have rhe: "round_half_even n d
      = (if 2 * R < d then Q else if d < 2 * R then Q + 1 else if even Q then Q else Q + 1)"
    by (simp add: round_half_even_def Let_def Q_def R_def)
  show "n div d \<le> round_half_even n d" "round_half_even n d \<le> n div d + 1"
    unfolding rhe by (simp_all add: Q_def)
  then show "0 \<le> round_half_even n d" using q unfolding Q_def by linarith
  have a: "2 * (Q * d) - 2 * n = - 2 * R" unfolding n by (simp add: algebra_simps)
  have b: "2 * ((Q + 1) * d) - 2 * n = 2 * d - 2 * R" unfolding n by (simp add: algebra_simps)
  show "\<bar>2 * (round_half_even n d * d) - 2 * n\<bar> \<le> d"
  proof (cases "2 * R < d")
    case True
    then show ?thesis unfolding rhe using a r by simp
  next
    case False
    note nlt = this
    show ?thesis
    proof (cases "d < 2 * R")
      case True
      then show ?thesis unfolding rhe using nlt b r by simp
    next
      case False
      with nlt have "2 * R = d" by simp
      then show ?thesis unfolding rhe using a b r by (cases "even Q") simp_all
    qed
  qed
qed

lemma powi_nonneg: "0 \<le> k \<Longrightarrow> (2::rat) powi k = 2 ^ nat k"
  by (simp add: power_int_def)

lemma powi_neg: "k < 0 \<Longrightarrow> (2::rat) powi k = 1 / 2 ^ nat (- k)"
  by (simp add: power_int_def inverse_eq_divide power_one_over)

lemma exponent_test_iff:
  assumes "0 < d"
  shows "(if 0 \<le> k then d * 2 ^ nat k \<le> n else d \<le> n * 2 ^ nat (- k))
         \<longleftrightarrow> (2::rat) powi k \<le> of_int n / of_int d"
proof (cases "0 \<le> k")
  case True
  have dpos: "(0::rat) < of_int d" using assms by simp
  have "(2::rat) powi k \<le> of_int n / of_int d \<longleftrightarrow> (2::rat) ^ nat k * of_int d \<le> of_int n"
    unfolding powi_nonneg [OF True] using dpos by (rule pos_le_divide_eq)
  also have "(2::rat) ^ nat k * of_int d = of_int (d * 2 ^ nat k)" by simp
  also have "(of_int (d * 2 ^ nat k) :: rat) \<le> of_int n \<longleftrightarrow> d * 2 ^ nat k \<le> n" by (rule of_int_le_iff)
  finally show ?thesis using True by simp
next
  case False
  then have neg: "k < 0" by simp
  have dpos: "(0::rat) < of_int d" using assms by simp
  have ppos: "(0::rat) < 2 ^ nat (- k)" by simp
  have "(2::rat) powi k \<le> of_int n / of_int d \<longleftrightarrow> 1 / 2 ^ nat (- k) \<le> (of_int n :: rat) / of_int d"
    unfolding powi_neg [OF neg] ..
  also have "\<dots> \<longleftrightarrow> 1 / 2 ^ nat (- k) * (of_int d :: rat) \<le> of_int n"
    using dpos by (rule pos_le_divide_eq)
  also have "1 / 2 ^ nat (- k) * (of_int d :: rat) = of_int d / 2 ^ nat (- k)" by simp
  also have "(of_int d :: rat) / 2 ^ nat (- k) \<le> of_int n \<longleftrightarrow> of_int d \<le> (of_int n :: rat) * 2 ^ nat (- k)"
    using ppos by (rule pos_divide_le_eq)
  also have "(of_int n :: rat) * 2 ^ nat (- k) = of_int (n * 2 ^ nat (- k))" by simp
  also have "(of_int d :: rat) \<le> of_int (n * 2 ^ nat (- k)) \<longleftrightarrow> d \<le> n * 2 ^ nat (- k)" by (rule of_int_le_iff)
  finally show ?thesis using False by simp
qed


lemma powi_quot: "(2::rat) powi a / 2 powi b = 2 powi (a - b)"
  by (simp add: power_int_diff)

lemma quotient_exponent_bounds:
  assumes "0 < n" and "0 < d"
  shows "2 powi (quotient_exponent n d) \<le> (of_int n / of_int d :: rat)"
    and "(of_int n / of_int d :: rat) < 2 powi (quotient_exponent n d + 1)"
proof -
  define q where "q = (of_int n / of_int d :: rat)"
  define k where "k = bit_length n - bit_length d"
  have dpos: "(0::rat) < of_int d" using assms(2) by simp
  have npos: "(0::rat) \<le> of_int n" using assms(1) by simp
  note bn = bit_length_rat [OF assms(1)] and bd = bit_length_rat [OF assms(2)]
  have p1: "(0::rat) < 2 powi (bit_length d - 1)" and p2: "(0::rat) < 2 powi (bit_length n - 1)"
    by simp_all
  have "q < 2 powi (bit_length n) / 2 powi (bit_length d - 1)"
    unfolding q_def using npos bn(2) p1 bd(1) by (rule frac_less)
  also have "\<dots> = 2 powi (k + 1)"
    unfolding powi_quot k_def by (simp add: algebra_simps)
  finally have up: "q < 2 powi (k + 1)" .
  have "(2::rat) powi (bit_length n - 1) / 2 powi (bit_length d) < q"
    unfolding q_def using p2 bn(1) dpos bd(2) by (rule frac_less2)
  moreover have "(2::rat) powi (bit_length n - 1) / 2 powi (bit_length d) = 2 powi (k - 1)"
    unfolding powi_quot k_def by (simp add: algebra_simps)
  ultimately have low: "2 powi (k - 1) < q" by simp
  have test: "(if 0 \<le> k then d * 2 ^ nat k \<le> n else d \<le> n * 2 ^ nat (- k)) \<longleftrightarrow> 2 powi k \<le> q"
    unfolding q_def by (rule exponent_test_iff [OF assms(2)])
  have qe: "quotient_exponent n d = (if 2 powi k \<le> q then k else k - 1)"
    unfolding quotient_exponent_def Let_def k_def [symmetric] test by simp
  show "2 powi (quotient_exponent n d) \<le> (of_int n / of_int d :: rat)"
    unfolding qe q_def [symmetric] using low by simp
  show "(of_int n / of_int d :: rat) < 2 powi (quotient_exponent n d + 1)"
    unfolding qe q_def [symmetric] using up by simp
qed

lemma round_half_even_close:
  assumes "0 < d" and "0 \<le> n"
  shows "\<bar>of_int (round_half_even n d) - of_int n / of_int d\<bar> \<le> (1 / 2 :: rat)"
proof -
  define M N D :: rat where "M = of_int (round_half_even n d)" and "N = of_int n" and "D = of_int d"
  have D: "0 < D" using assms(1) by (simp add: D_def)
  from round_half_even_bounds(1) [OF assms]
  have "- d \<le> 2 * (round_half_even n d * d) - 2 * n" and "2 * (round_half_even n d * d) - 2 * n \<le> d"
    by (simp_all add: abs_le_iff)
  then have "(of_int (- d) :: rat) \<le> of_int (2 * (round_half_even n d * d) - 2 * n)"
    and "(of_int (2 * (round_half_even n d * d) - 2 * n) :: rat) \<le> of_int d"
    by (simp_all only: of_int_le_iff)
  then have lo: "- D \<le> 2 * (M * D) - 2 * N" and hi: "2 * (M * D) - 2 * N \<le> D"
    by (simp_all add: M_def N_def D_def)
  define E where "E = (2 * (M * D) - 2 * N) / (2 * D)"
  have eq: "M - N / D = E" unfolding E_def using D by (simp add: field_simps)
  have a: "- (1 / 2) \<le> E"
    unfolding E_def using lo D by (simp add: pos_le_divide_eq)
  have b: "E \<le> 1 / 2"
    unfolding E_def using hi D by (simp add: pos_divide_le_eq)
  have "\<bar>E\<bar> \<le> 1 / 2" using a b by (intro abs_leI) linarith+
  then have "\<bar>M - N / D\<bar> \<le> 1 / 2" unfolding eq .
  then show ?thesis by (simp add: M_def N_def D_def)
qed

lemma round_scaled_close:
  assumes "0 < d" and "0 \<le> n"
  shows "\<bar>of_int (round_scaled n d u) - of_int n / (of_int d * 2 powi u)\<bar> \<le> (1 / 2 :: rat)"
    and "0 \<le> round_scaled n d u"
proof -
  show "0 \<le> round_scaled n d u"
    using round_half_even_bounds(2) [of "d * 2 ^ nat u" n]
      round_half_even_bounds(2) [of d "n * 2 ^ nat (- u)"] assms
    by (simp add: round_scaled_def)
  show "\<bar>of_int (round_scaled n d u) - of_int n / (of_int d * 2 powi u)\<bar> \<le> (1 / 2 :: rat)"
  proof (cases "0 \<le> u")
    case True
    have "0 < d * 2 ^ nat u" using assms(1) by simp
    from round_half_even_close [OF this assms(2)] True show ?thesis
      by (simp add: round_scaled_def powi_nonneg)
  next
    case False
    then have neg: "u < 0" by simp
    have "0 \<le> n * 2 ^ nat (- u)" using assms(2) by simp
    from round_half_even_close [OF assms(1) this] neg show ?thesis
      by (simp add: round_scaled_def powi_neg)
  qed
qed

lemma py_truediv_zero: "0 < b \<Longrightarrow> py_truediv 0 b = Inr (PyFloat False 0 0)"
  by (simp add: py_truediv_def)

lemma py_truediv_nonzero:
  assumes "0 < b" and "a \<noteq> 0"
  shows "py_truediv a b =
    (let u = max (quotient_exponent \<bar>a\<bar> b) (- 1022) - 52; m = round_scaled \<bar>a\<bar> b u
     in if 0 \<le> u \<and> 2 ^ 1024 \<le> m * 2 ^ nat u then Inl OverflowError
        else Inr (PyFloat (a < 0) m u))"
  using assms by (simp add: py_truediv_def Let_def)

text \<open>The analysis of one division: \<open>n\<close> and \<open>d\<close> positive.\<close>

lemma mantissa_facts:
  assumes "0 < n" and "0 < d"
  defines "u \<equiv> max (quotient_exponent n d) (- 1022) - 52"
  defines "m \<equiv> round_scaled n d u"
  shows "\<bar>of_int m * 2 powi u - (of_int n / of_int d :: rat)\<bar> \<le> 2 powi u / 2"
    and "0 \<le> m" and "m \<le> 2 ^ 53" and "- 1074 \<le> u"
proof -
  define q :: rat where "q = of_int n / of_int d"
  define e where "e = quotient_exponent n d"
  have u: "u = max e (- 1022) - 52" by (simp add: u_def e_def)
  have qlo: "2 powi e \<le> q" and qhi: "q < 2 powi (e + 1)"
    unfolding q_def e_def using quotient_exponent_bounds [OF assms(1,2)] by simp_all
  have pu: "(0::rat) < 2 powi u" by simp
  have n0: "0 \<le> n" using assms(1) by simp
  have X: "of_int n / (of_int d * 2 powi u) = q / 2 powi u" by (simp add: q_def)
  note close = round_scaled_close [OF assms(2) n0, of u, folded m_def, unfolded X]
  show "0 \<le> m" by (rule close(2))
  show "- 1074 \<le> u" unfolding u by simp
  have step1: "\<bar>of_int m - q / 2 powi u\<bar> * 2 powi u \<le> 1 / 2 * 2 powi u"
    using close(1) pu by (intro mult_right_mono) simp_all
  have step2: "\<bar>of_int m - q / 2 powi u\<bar> * 2 powi u = \<bar>of_int m * 2 powi u - q\<bar>"
  proof -
    have "\<bar>of_int m - q / 2 powi u\<bar> * 2 powi u = \<bar>(of_int m - q / 2 powi u) * 2 powi u\<bar>"
      using pu by (simp add: abs_mult)
    also have "(of_int m - q / 2 powi u) * 2 powi u = of_int m * 2 powi u - q"
      using pu by (simp add: field_simps)
    finally show ?thesis .
  qed
  from step1 have "\<bar>of_int m * 2 powi u - q\<bar> \<le> 1 / 2 * 2 powi u" unfolding step2 .
  then have "\<bar>of_int m * 2 powi u - q\<bar> \<le> 2 powi u / 2" by simp
  then show "\<bar>of_int m * 2 powi u - (of_int n / of_int d :: rat)\<bar> \<le> 2 powi u / 2"
    unfolding q_def .
  have "q / 2 powi u < 2 powi (e + 1) / 2 powi u"
    using qhi pu by (simp add: divide_strict_right_mono)
  also have "\<dots> = 2 powi (e + 1 - u)" by (rule powi_quot)
  also have "\<dots> \<le> 2 powi 53"
    by (rule power_int_increasing) (simp_all add: u)
  finally have "q / 2 powi u < 2 ^ 53" by simp
  moreover have "of_int m - q / 2 powi u \<le> 1 / 2"
    using abs_ge_self [of "of_int m - q / 2 powi u"] close(1) by (rule order_trans)
  ultimately have "(of_int m :: rat) < 2 ^ 53 + 1" by linarith
  then have "(of_int m :: rat) < of_int (2 ^ 53 + 1)" by simp
  then have "m < 2 ^ 53 + 1" by (simp only: of_int_less_iff)
  then show "m \<le> 2 ^ 53" by simp
qed

lemma of_int_times_power:
  "0 \<le> u \<Longrightarrow> (of_int (m * 2 ^ nat u) :: rat) = of_int m * 2 powi u"
  by (simp add: powi_nonneg)

lemma division_in_range:
  assumes "0 < n" and "0 < d" and "n < (2 ^ 1024 - 2 ^ 970) * d"
  defines "u \<equiv> max (quotient_exponent n d) (- 1022) - 52"
  defines "m \<equiv> round_scaled n d u"
  shows "\<not> (0 \<le> u \<and> 2 ^ 1024 \<le> m * 2 ^ nat u)" and "u \<le> 971"
proof -
  define q :: rat where "q = of_int n / of_int d"
  define e where "e = quotient_exponent n d"
  have u: "u = max e (- 1022) - 52" by (simp add: u_def e_def)
  have qlo: "2 powi e \<le> q"
    unfolding q_def e_def using quotient_exponent_bounds [OF assms(1,2)] by simp
  have dpos: "(0::rat) < of_int d" using assms(2) by simp
  have "(of_int n :: rat) < of_int ((2 ^ 1024 - 2 ^ 970) * d)"
    using assms(3) by (simp only: of_int_less_iff)
  then have "(of_int n :: rat) < (2 ^ 1024 - 2 ^ 970) * of_int d" by simp
  then have qhi: "q < 2 ^ 1024 - 2 ^ 970"
    unfolding q_def using dpos by (simp add: pos_divide_less_eq)
  have e: "e \<le> 1023"
  proof (rule ccontr)
    assume "\<not> e \<le> 1023"
    then have "1024 \<le> e" by simp
    then have "(2::rat) powi 1024 \<le> 2 powi e" by (rule power_int_increasing) simp
    with qlo have "(2::rat) powi 1024 \<le> q" by simp
    with qhi show False by simp
  qed
  then show u971: "u \<le> 971" unfolding u by simp
  have half: "(2::rat) powi u / 2 \<le> 2 ^ 970"
  proof -
    have "(2::rat) powi u \<le> 2 powi 971" using u971 by (rule power_int_increasing) simp
    then show ?thesis by simp
  qed
  note close = mantissa_facts(1) [OF assms(1,2), folded u_def m_def q_def]
  have "of_int m * 2 powi u - q \<le> 2 powi u / 2"
    using abs_ge_self [of "of_int m * 2 powi u - q"] close by (rule order_trans)
  with half qhi have lt: "of_int m * 2 powi u < (2::rat) ^ 1024" by linarith
  show "\<not> (0 \<le> u \<and> 2 ^ 1024 \<le> m * 2 ^ nat u)"
  proof
    assume a: "0 \<le> u \<and> 2 ^ 1024 \<le> m * 2 ^ nat u"
    then have "(of_int (2 ^ 1024) :: rat) \<le> of_int (m * 2 ^ nat u)" by (simp only: of_int_le_iff)
    then have "(2::rat) ^ 1024 \<le> of_int m * 2 powi u"
      using a by (simp only: of_int_times_power) simp
    with lt show False by simp
  qed
qed

lemma division_overflows:
  assumes "0 < d" and "2 ^ 1024 * d \<le> n"
  defines "u \<equiv> max (quotient_exponent n d) (- 1022) - 52"
  defines "m \<equiv> round_scaled n d u"
  shows "0 \<le> u \<and> 2 ^ 1024 \<le> m * 2 ^ nat u"
proof -
  define q :: rat where "q = of_int n / of_int d"
  define e where "e = quotient_exponent n d"
  have "0 < 2 ^ 1024 * d" using assms(1) by simp
  with assms(2) have npos: "0 < n" by linarith
  have u: "u = max e (- 1022) - 52" by (simp add: u_def e_def)
  have qhi: "q < 2 powi (e + 1)"
    unfolding q_def e_def using quotient_exponent_bounds [OF npos assms(1)] by simp
  have qlo: "2 powi e \<le> q"
    unfolding q_def e_def using quotient_exponent_bounds [OF npos assms(1)] by simp
  have dpos: "(0::rat) < of_int d" using assms(1) by simp
  have "(of_int (2 ^ 1024 * d) :: rat) \<le> of_int n" using assms(2) by (simp only: of_int_le_iff)
  then have "(2 ^ 1024 :: rat) * of_int d \<le> of_int n" by simp
  then have big: "2 ^ 1024 \<le> q" unfolding q_def using dpos by (simp add: pos_le_divide_eq)
  have e: "1024 \<le> e"
  proof (rule ccontr)
    assume "\<not> 1024 \<le> e"
    then have "e + 1 \<le> 1024" by simp
    then have "(2::rat) powi (e + 1) \<le> 2 powi 1024" by (rule power_int_increasing) simp
    with qhi have "q < 2 powi 1024" by simp
    with big show False by simp
  qed
  then have ue: "u = e - 52" and u0: "0 \<le> u" unfolding u by simp_all
  have pu: "(0::rat) < 2 powi u" by simp
  have split: "(2::rat) powi e = 2 ^ 52 * 2 powi u"
  proof -
    have "(2::rat) powi e = 2 powi (52 + u)" using ue by simp
    also have "\<dots> = 2 powi 52 * 2 powi u" by (rule power_int_add) simp
    finally show ?thesis by simp
  qed
  note close = mantissa_facts(1) [OF npos assms(1), folded u_def m_def q_def]
  have "q - of_int m * 2 powi u \<le> 2 powi u / 2"
    using abs_ge_self [of "q - of_int m * 2 powi u"] close by (simp add: abs_minus_commute)
  with qlo have "(2::rat) ^ 52 * 2 powi u - 2 powi u / 2 \<le> of_int m * 2 powi u"
    unfolding split by linarith
  then have "(2 ^ 52 - 1 / 2 :: rat) * 2 powi u \<le> of_int m * 2 powi u" by (simp add: algebra_simps)
  then have "(2 ^ 52 - 1 / 2 :: rat) \<le> of_int m" using pu by (simp only: mult_le_cancel_right_pos)
  then have "(of_int (2 ^ 52 - 1) :: rat) < of_int m" by simp
  then have "2 ^ 52 - 1 < m" by (simp only: of_int_less_iff)
  then have m: "2 ^ 52 \<le> m" by simp
  have "(2::int) ^ 1024 \<le> 2 ^ (52 + nat u)"
    by (rule power_increasing) (use e ue in simp_all)
  also have "\<dots> = 2 ^ 52 * 2 ^ nat u" by (simp add: power_add)
  also have "\<dots> \<le> m * 2 ^ nat u" using m by (intro mult_right_mono) simp_all
  finally show ?thesis using u0 by simp
qed

lemma py_truediv_overflow:
  assumes "0 < b" and "2 ^ 1024 * b \<le> \<bar>a\<bar>"
  shows "py_truediv a b = Inl OverflowError"
proof -
  have "0 < 2 ^ 1024 * b" using assms(1) by simp
  with assms(2) have "a \<noteq> 0" by auto
  from py_truediv_nonzero [OF assms(1) this] division_overflows [OF assms]
  show ?thesis by (simp add: Let_def)
qed

lemma half_ulp_bound:
  assumes "0 < n" and "0 < d"
  defines "u \<equiv> max (quotient_exponent n d) (- 1022) - 52"
  shows "(2::rat) powi u / 2 \<le> max ((of_int n / of_int d) / 2 ^ 53) (1 / 2 ^ 1075)"
proof -
  define q :: rat where "q = of_int n / of_int d"
  define e where "e = quotient_exponent n d"
  have u: "u = max e (- 1022) - 52" by (simp add: u_def e_def)
  have qlo: "2 powi e \<le> q"
    unfolding q_def e_def using quotient_exponent_bounds [OF assms(1,2)] by simp
  have half: "(2::rat) powi u / 2 = 2 powi (u - 1)"
    using powi_quot [of u 1] by simp
  show ?thesis
  proof (cases "- 1022 \<le> e")
    case True
    then have eq: "u - 1 = e - 53" unfolding u by simp
    have "(2::rat) powi (u - 1) = 2 powi e / 2 powi 53" unfolding eq by (rule powi_quot [symmetric])
    also have "\<dots> \<le> q / 2 powi 53" using qlo by (simp add: divide_right_mono)
    finally have "(2::rat) powi u / 2 \<le> q / 2 ^ 53" unfolding half by simp
    then show ?thesis unfolding q_def by (simp add: le_max_iff_disj)
  next
    case False
    then have eq: "u - 1 = - 1075" unfolding u by simp
    have "(2::rat) powi (u - 1) = 1 / 2 ^ 1075"
      unfolding eq by (simp add: powi_neg)
    then show ?thesis unfolding half by (simp add: le_max_iff_disj)
  qed
qed

lemma py_truediv_finite:
  assumes "0 < b" and "\<bar>a\<bar> < (2 ^ 1024 - 2 ^ 970) * b"
  shows "\<exists>x. py_truediv a b = Inr x \<and> negative x = (a < 0)
            \<and> 0 \<le> mantissa x \<and> mantissa x \<le> 2 ^ 53
            \<and> - 1074 \<le> exponent x \<and> exponent x \<le> 971
            \<and> \<bar>float_value x - of_int a / of_int b\<bar>
                \<le> max (\<bar>of_int a / of_int b\<bar> / 2 ^ 53) (1 / 2 ^ 1075)"
proof (cases "a = 0")
  case True
  then show ?thesis using assms(1) by (simp add: py_truediv_zero float_value_def)
next
  case False
  define n where "n = \<bar>a\<bar>"
  define u where "u = max (quotient_exponent n b) (- 1022) - 52"
  define m where "m = round_scaled n b u"
  define x where "x = PyFloat (a < 0) m u"
  have npos: "0 < n" using False by (simp add: n_def)
  have lt: "n < (2 ^ 1024 - 2 ^ 970) * b" using assms(2) by (simp add: n_def)
  note mf = mantissa_facts [OF npos assms(1), folded u_def m_def]
  note ir = division_in_range [OF npos assms(1) lt, folded u_def m_def]
  have res: "py_truediv a b = Inr x"
    using py_truediv_nonzero [OF assms(1) False] ir(1)
    by (simp add: Let_def n_def [symmetric] u_def [symmetric] m_def [symmetric] x_def)
  have bpos: "(0::rat) < of_int b" using assms(1) by simp
  have q_abs: "\<bar>of_int a / of_int b :: rat\<bar> = of_int n / of_int b"
    using bpos by (simp add: n_def abs_divide)
  have "\<bar>float_value x - of_int a / of_int b\<bar> = \<bar>of_int m * 2 powi u - (of_int n / of_int b :: rat)\<bar>"
  proof (cases "a < 0")
    case True
    then have "(of_int a :: rat) = - of_int n" by (simp add: n_def)
    then have "float_value x - of_int a / of_int b = - (of_int m * 2 powi u - of_int n / of_int b)"
      using True by (simp add: float_value_def x_def)
    then show ?thesis by (simp only: abs_minus_cancel)
  next
    case False
    then have "(of_int a :: rat) = of_int n" by (simp add: n_def)
    then show ?thesis using False by (simp add: float_value_def x_def)
  qed
  also have "\<dots> \<le> 2 powi u / 2" by (rule mf(1))
  also have "\<dots> \<le> max ((of_int n / of_int b) / 2 ^ 53) (1 / 2 ^ 1075)"
    unfolding u_def by (rule half_ulp_bound [OF npos assms(1)])
  finally have acc: "\<bar>float_value x - of_int a / of_int b\<bar>
      \<le> max (\<bar>of_int a / of_int b\<bar> / 2 ^ 53) (1 / 2 ^ 1075)"
    unfolding q_abs .
  show ?thesis
    using res mf(2,3,4) ir(2) acc by (intro exI [of _ x]) (simp add: x_def)
qed

lemma digit_char_facts:
  assumes "0 \<le> d" and "d < 10"
  shows "is_digit (digit_char d)" and "(of_char (digit_char d) :: int) - 48 = d"
proof -
  have "d = 0 \<or> d = 1 \<or> d = 2 \<or> d = 3 \<or> d = 4 \<or> d = 5 \<or> d = 6 \<or> d = 7 \<or> d = 8 \<or> d = 9"
    using assms by presburger
  then show "is_digit (digit_char d)" and "(of_char (digit_char d) :: int) - 48 = d"
    by (elim disjE; simp add: digit_char_def is_digit_def)+
qed

lemma digits_value_snoc:
  "digits_value (xs @ [c]) = 10 * digits_value xs + (of_char c - 48)"
  by (simp add: digits_value_def)

lemma digits_small: "n < 10 \<Longrightarrow> digits n = [digit_char n]"
  by (subst digits.simps) simp

lemma digits_large: "\<not> n < 10 \<Longrightarrow> digits n = digits (n div 10) @ [digit_char (n mod 10)]"
  by (subst digits.simps) simp

lemma digits_facts:
  "0 \<le> k \<Longrightarrow> digits k \<noteq> [] \<and> list_all is_digit (digits k) \<and> digits_value (digits k) = k"
proof (induction k rule: digits.induct)
  case (1 n)
  show ?case
  proof (cases "n < 10")
    case True
    with "1.prems" digit_char_facts [of n] show ?thesis
      by (simp add: digits_small digits_value_def)
  next
    case False
    then have "0 \<le> n div 10" by simp
    with "1.IH" False have ih: "digits (n div 10) \<noteq> []" "list_all is_digit (digits (n div 10))"
      "digits_value (digits (n div 10)) = n div 10" by simp_all
    have d: "0 \<le> n mod 10" "n mod 10 < 10" by simp_all
    show ?thesis
      using ih digit_char_facts [OF d]
      by (simp add: digits_large [OF False] digits_value_snoc)
  qed
qed

lemma two_digit_parts:
  fixes h :: int
  shows "0 \<le> h mod 100 div 10" and "h mod 100 div 10 < 10"
    and "10 * (h mod 100 div 10) + h mod 10 = h mod 100"
proof -
  have r: "0 \<le> h mod 100" "h mod 100 < 100" by simp_all
  show "0 \<le> h mod 100 div 10" using r(1) by (simp add: pos_imp_zdiv_nonneg_iff)
  have "h mod 100 \<le> 99" using r(2) by simp
  then have "h mod 100 div 10 \<le> 99 div 10" by (rule zdiv_mono1) simp
  then show "h mod 100 div 10 < 10" by simp
  have "h mod 10 = h mod 100 mod 10" by (simp add: mod_mod_cancel)
  then show "10 * (h mod 100 div 10) + h mod 10 = h mod 100" by simp
qed


lemma hundredths_close:
  assumes "0 \<le> mantissa x"
  shows "0 \<le> hundredths x"
    and "\<bar>of_int (hundredths x) / 100 - \<bar>float_value x\<bar>\<bar> \<le> (1 / 200 :: rat)"
proof -
  define m u where "m = mantissa x" and "u = exponent x"
  define A B :: rat where "A = of_int (hundredths x)" and "B = of_int m * 2 powi u"
  have m0: "0 \<le> m * 100" using assms by (simp add: m_def)
  have one: "(0::int) < 1" by simp
  note close = round_scaled_close [OF one m0, of "- u"]
  show "0 \<le> hundredths x" using close(2) by (simp add: hundredths_def m_def u_def)
  have inv: "1 / (2::rat) powi (- u) = 2 powi u" by (simp add: power_int_minus inverse_eq_divide)
  have "of_int (m * 100) / (of_int 1 * (2::rat) powi (- u)) = of_int m * 100 * (1 / 2 powi (- u))"
    by simp
  also have "\<dots> = 100 * B" unfolding inv B_def by simp
  finally have "\<bar>A - 100 * B\<bar> \<le> 1 / 2"
    using close(1) by (simp add: hundredths_def m_def u_def A_def)
  then have "\<bar>A - 100 * B\<bar> / 100 \<le> (1 / 2) / 100" by (rule divide_right_mono) simp
  moreover have "A / 100 - B = (A - 100 * B) / 100" by simp
  then have "\<bar>A / 100 - B\<bar> = \<bar>A - 100 * B\<bar> / 100" by (simp only: abs_divide abs_numeral)
  ultimately have "\<bar>A / 100 - B\<bar> \<le> 1 / 200" by simp
  moreover have "\<bar>float_value x\<bar> = B"
    using assms by (simp add: float_value_def m_def u_def B_def abs_mult)
  ultimately show "\<bar>of_int (hundredths x) / 100 - \<bar>float_value x\<bar>\<bar> \<le> (1 / 200 :: rat)"
    by (simp add: A_def)
qed

lemma format_2f_shape:
  assumes "0 \<le> mantissa x"
  shows "\<exists>whole cents. format_2f x = (if negative x then ''-'' else '''') @ whole @ ''.'' @ cents
          \<and> whole \<noteq> [] \<and> list_all is_digit whole \<and> length cents = 2 \<and> list_all is_digit cents
          \<and> \<bar>decimal_value whole cents - \<bar>float_value x\<bar>\<bar> \<le> 1 / 200"
proof -
  define h where "h = hundredths x"
  define whole where "whole = digits (h div 100)"
  define cents where "cents = [digit_char (h mod 100 div 10), digit_char (h mod 10)]"
  note hc = hundredths_close [OF assms, folded h_def]
  have "0 \<le> h div 100" using hc(1) by (simp add: pos_imp_zdiv_nonneg_iff)
  from digits_facts [OF this]
  have w: "whole \<noteq> []" "list_all is_digit whole" "digits_value whole = h div 100"
    by (simp_all add: whole_def)
  note d1 = two_digit_parts(1,2) [of h]
  have d2: "0 \<le> h mod 10" "h mod 10 < 10" by simp_all
  have c: "length cents = 2" "list_all is_digit cents"
    using digit_char_facts(1) [OF d1] digit_char_facts(1) [OF d2] by (simp_all add: cents_def)
  have "digits_value cents = 10 * (h mod 100 div 10) + h mod 10"
    using digit_char_facts(2) [OF d1] digit_char_facts(2) [OF d2]
    by (simp add: cents_def digits_value_def)
  also have "\<dots> = h mod 100" by (rule two_digit_parts(3))
  finally have cv: "digits_value cents = h mod 100" .
  have "(of_int h :: rat) = of_int (h div 100 * 100 + h mod 100)" by (simp only: div_mult_mod_eq)
  then have hh: "(of_int h :: rat) = of_int (h div 100) * 100 + of_int (h mod 100)"
    by (simp only: of_int_add of_int_mult of_int_numeral)
  have dv: "decimal_value whole cents = of_int h / 100"
    unfolding hh by (simp add: decimal_value_def w(3) cv c(1) add_divide_distrib)
  have f: "format_2f x = (if negative x then ''-'' else '''') @ whole @ ''.'' @ cents"
    by (simp add: format_2f_def Let_def h_def whole_def cents_def)
  have acc: "\<bar>decimal_value whole cents - \<bar>float_value x\<bar>\<bar> \<le> 1 / 200"
    unfolding dv by (rule hc(2))
  show ?thesis using f w(1,2) c acc by blast
qed

subsection \<open>The epoch computation\<close>

lemma calculate_epochs_raises:
  assumes "int_or_default int_of (images_entry f) 0 = Inr images"
    and "int_or_default int_of (repeats_entry f) 0 = Inr repeats"
    and "int_or_default int_of (batch_entry f) 0 = Inr batch"
    and "int_or_default int_of (steps_entry f) 2000 = Inr steps"
    and "0 < images" and "0 < repeats" and "0 < batch"
    and "py_truediv (steps * batch) (images * repeats) = Inl OverflowError"
  shows "calculate_epochs int_of f = Inl OverflowError"
  using assms by (simp add: calculate_epochs_def epochs_try_def)

lemma calculate_epochs_shows:
  assumes "int_or_default int_of (images_entry f) 0 = Inr images"
    and "int_or_default int_of (repeats_entry f) 0 = Inr repeats"
    and "int_or_default int_of (batch_entry f) 0 = Inr batch"
    and "int_or_default int_of (steps_entry f) 2000 = Inr steps"
    and "0 < images" and "0 < repeats" and "0 < batch"
    and "py_truediv (steps * batch) (images * repeats) = Inr x"
  shows "calculate_epochs int_of f = Inr (f\<lparr>result_label := ''Optimal Epochs: '' @ format_2f x\<rparr>)"
  using assms by (simp add: calculate_epochs_def epochs_try_def)

text \<open>
  C3, as stated, fails when the quotient is too large for a double. With images, repeats
  and batch 1 and steps \<open>10 ^ 309\<close>, all four entries parse and the three required ones
  are positive, but the true division raises \<open>OverflowError\<close>, which \<open>except ValueError\<close>
  does not catch: the method is left by the exception and no value is displayed.
\<close>

theorem huge_steps_overflow_counterexample:
  "int_or_default decimal_int ''1'' 0 = Inr 1
   \<and> int_or_default decimal_int ''1000000000000000000000000000000000000000000000000000000000000000000000000000000000000000000000000000000000000000000000000000000000000000000000000000000000000000000000000000000000000000000000000000000000000000000000000000000000000000000000000000000000000000000000000000000000000000000000000000000000000000000000'' 2000 = Inr (10 ^ 309)
   \<and> calculate_epochs decimal_int
       \<lparr>images_entry = ''1'', repeats_entry = ''1'', batch_entry = ''1'',
        steps_entry = ''1000000000000000000000000000000000000000000000000000000000000000000000000000000000000000000000000000000000000000000000000000000000000000000000000000000000000000000000000000000000000000000000000000000000000000000000000000000000000000000000000000000000000000000000000000000000000000000000000000000000000000000000'',
        result_label = ''Optimal Epochs: ''\<rparr>
     = Inl OverflowError"
proof -
  have one: "int_or_default decimal_int ''1'' 0 = Inr 1"
    by (simp add: int_or_default_def decimal_int_def is_digit_def digits_value_def)
  have big: "int_or_default decimal_int ''1000000000000000000000000000000000000000000000000000000000000000000000000000000000000000000000000000000000000000000000000000000000000000000000000000000000000000000000000000000000000000000000000000000000000000000000000000000000000000000000000000000000000000000000000000000000000000000000000000000000000000000000'' 2000 = Inr (10 ^ 309)"
    by (simp add: int_or_default_def decimal_int_def is_digit_def digits_value_def)
  have td: "py_truediv (10 ^ 309 * 1) (1 * 1) = Inl OverflowError"
    by (rule py_truediv_overflow) simp_all
  define form where "form =
      \<lparr>images_entry = ''1'', repeats_entry = ''1'', batch_entry = ''1'',
        steps_entry = ''1000000000000000000000000000000000000000000000000000000000000000000000000000000000000000000000000000000000000000000000000000000000000000000000000000000000000000000000000000000000000000000000000000000000000000000000000000000000000000000000000000000000000000000000000000000000000000000000000000000000000000000000'',
        result_label = ''Optimal Epochs: ''\<rparr>"
  have h1: "int_or_default decimal_int (images_entry form) 0 = Inr 1"
    and h2: "int_or_default decimal_int (repeats_entry form) 0 = Inr 1"
    and h3: "int_or_default decimal_int (batch_entry form) 0 = Inr 1"
    using one by (simp_all add: form_def)
  have h4: "int_or_default decimal_int (steps_entry form) 2000 = Inr (10 ^ 309)"
    using big by (simp add: form_def)
  have pos: "(0::int) < 1" by simp
  have "calculate_epochs decimal_int form = Inl OverflowError"
    using h1 h2 h3 h4 pos pos pos td by (rule calculate_epochs_raises)
  then have "calculate_epochs decimal_int
       \<lparr>images_entry = ''1'', repeats_entry = ''1'', batch_entry = ''1'',
        steps_entry = ''1000000000000000000000000000000000000000000000000000000000000000000000000000000000000000000000000000000000000000000000000000000000000000000000000000000000000000000000000000000000000000000000000000000000000000000000000000000000000000000000000000000000000000000000000000000000000000000000000000000000000000000000'',
        result_label = ''Optimal Epochs: ''\<rparr>
     = Inl OverflowError"
    unfolding form_def .
  with one big show ?thesis by (intro conjI)
qed

text \<open>
  C3, amended. Let images, repeats and batch be positive integers and steps any integer
  (2000 when the entry is blank), with the magnitude of \<open>steps * batch\<close> below
  \<open>(2 ^ 1024 - 2 ^ 970) * (images * repeats)\<close>, so that the quotient rounds to a finite
  double. Then the division returns a double (at most 53 significant bits, exponent from
  \<open>-1074\<close> to \<open>971\<close>) that differs from the exact quotient by at most the quotient
  times \<open>2 ^ -53\<close> (or \<open>2 ^ -1075\<close> for the smallest quotients), and the result label is
  set to \<open>Optimal Epochs: \<close> followed by that double in the format \<open>.2f\<close>: an optional
  minus sign, at least one digit, a point and exactly two digits, showing a number within
  \<open>0.005\<close> of the magnitude of the double.
\<close>

theorem epochs_shown_to_two_decimals:
  assumes "int_or_default int_of (images_entry f) 0 = Inr images"
    and "int_or_default int_of (repeats_entry f) 0 = Inr repeats"
    and "int_or_default int_of (batch_entry f) 0 = Inr batch"
    and "int_or_default int_of (steps_entry f) 2000 = Inr steps"
    and "0 < images" and "0 < repeats" and "0 < batch"
    and "\<bar>steps * batch\<bar> < (2 ^ 1024 - 2 ^ 970) * (images * repeats)"
  shows "\<exists>x whole cents.
           py_truediv (steps * batch) (images * repeats) = Inr x
         \<and> 0 \<le> mantissa x \<and> mantissa x \<le> 2 ^ 53 \<and> - 1074 \<le> exponent x \<and> exponent x \<le> 971
         \<and> \<bar>float_value x - of_int (steps * batch) / of_int (images * repeats)\<bar>
             \<le> max (\<bar>of_int (steps * batch) / of_int (images * repeats)\<bar> / 2 ^ 53) (1 / 2 ^ 1075)
         \<and> calculate_epochs int_of f
             = Inr (f\<lparr>result_label := ''Optimal Epochs: '' @ format_2f x\<rparr>)
         \<and> format_2f x = (if negative x then ''-'' else '''') @ whole @ ''.'' @ cents
         \<and> whole \<noteq> [] \<and> list_all is_digit whole \<and> length cents = 2 \<and> list_all is_digit cents
         \<and> \<bar>decimal_value whole cents - \<bar>float_value x\<bar>\<bar> \<le> 1 / 200"
proof -
  have d: "0 < images * repeats" using assms(5,6) by simp
  from py_truediv_finite [OF d assms(8)] obtain x where
    x: "py_truediv (steps * batch) (images * repeats) = Inr x"
      "0 \<le> mantissa x" "mantissa x \<le> 2 ^ 53" "- 1074 \<le> exponent x" "exponent x \<le> 971"
      "\<bar>float_value x - of_int (steps * batch) / of_int (images * repeats)\<bar>
         \<le> max (\<bar>of_int (steps * batch) / of_int (images * repeats)\<bar> / 2 ^ 53) (1 / 2 ^ 1075)"
    by blast
  from format_2f_shape [OF x(2)] obtain whole cents where
    s: "format_2f x = (if negative x then ''-'' else '''') @ whole @ ''.'' @ cents"
      "whole \<noteq> []" "list_all is_digit whole" "length cents = 2" "list_all is_digit cents"
      "\<bar>decimal_value whole cents - \<bar>float_value x\<bar>\<bar> \<le> 1 / 200"
    by blast
  note c = calculate_epochs_shows [OF assms(1-7) x(1)]
  show ?thesis
    using x c s by (intro exI [of _ x] exI [of _ whole] exI [of _ cents] conjI)
qed

lemma bit_length_numeral:
  "bit_length (numeral k) = 1 + bit_length (numeral k div 2)"
  "bit_length 1 = 1" "bit_length 0 = 0"
  by (subst bit_length.simps, simp, (subst bit_length.simps, simp)?)+

lemma example_division:
  "py_truediv (2000 * 4) (37 * 10) = Inr (PyFloat False 6085945442392562 (- 48))"
  by (simp add: py_truediv_def quotient_exponent_def round_scaled_def round_half_even_def Let_def
      bit_length_numeral)

lemma example_format: "format_2f (PyFloat False 6085945442392562 (- 48)) = ''21.62''"
  by (simp add: format_2f_def hundredths_def round_scaled_def round_half_even_def Let_def
      digits_small digits_large digit_char_def)

theorem epochs_shown_to_two_decimals_witness:
  "calculate_epochs decimal_int
     \<lparr>images_entry = ''37'', repeats_entry = ''10'', batch_entry = ''4'', steps_entry = '''',
      result_label = ''Optimal Epochs: ''\<rparr>
   = Inr \<lparr>images_entry = ''37'', repeats_entry = ''10'', batch_entry = ''4'', steps_entry = '''',
      result_label = ''Optimal Epochs: 21.62''\<rparr>"
proof -
  define f where "f =
     \<lparr>images_entry = ''37'', repeats_entry = ''10'', batch_entry = ''4'', steps_entry = '''',
      result_label = ''Optimal Epochs: ''\<rparr>"
  have h1: "int_or_default decimal_int (images_entry f) 0 = Inr 37"
    and h2: "int_or_default decimal_int (repeats_entry f) 0 = Inr 10"
    and h3: "int_or_default decimal_int (batch_entry f) 0 = Inr 4"
    and h4: "int_or_default decimal_int (steps_entry f) 2000 = Inr 2000"
    by (simp_all add: f_def int_or_default_def decimal_int_def is_digit_def digits_value_def)
  have p1: "(0::int) < 37" and p2: "(0::int) < 10" and p3: "(0::int) < 4" by simp_all
  have range: "\<bar>2000 * 4\<bar> < (2 ^ 1024 - 2 ^ 970) * (37 * 10 :: int)" by simp
  from epochs_shown_to_two_decimals [OF h1 h2 h3 h4 p1 p2 p3 range] obtain x where
    x: "py_truediv (2000 * 4) (37 * 10) = Inr x"
    and c: "calculate_epochs decimal_int f
        = Inr (f\<lparr>result_label := ''Optimal Epochs: '' @ format_2f x\<rparr>)"
    by blast
  from x have "x = PyFloat False 6085945442392562 (- 48)" unfolding example_division by simp
  with c have "calculate_epochs decimal_int f = Inr (f\<lparr>result_label := ''Optimal Epochs: 21.62''\<rparr>)"
    by (simp add: example_format)
  then show ?thesis by (simp add: f_def)
qed

end
